theory Spec2Isabelle
  imports Complex_Main
begin

section \<open>Numbers, errors and typed arrays\<close>

text \<open>
  A JavaScript \<open>number\<close> is a double: a finite value, \<open>NaN\<close> or one of the two infinities.
  A finite double is modelled by the real number it stands for; the sign of a zero is not
  modelled.
\<close>

datatype number = Fin real | NaN | PosInfinity | NegInfinity

fun isFinite :: "number \<Rightarrow> bool" where
  "isFinite (Fin x) = True"
| "isFinite v = False"

text \<open>\<open>Math.round\<close> rounds to the nearest integer, a tie going up.\<close>

definition Math_round :: "real \<Rightarrow> int" where
  "Math_round x = \<lfloor>x + 1 / 2\<rfloor>"

subsection \<open>Rounding to the nearest double\<close>

text \<open>
  The result of an arithmetic operation is the double nearest to the exact result, a tie
  going to the neighbour whose last bit is 0. A binary format has \<open>p\<close> significant bits and
  exponents from \<open>emin\<close> to \<open>emax\<close>. Near \<open>x\<close> its values are the multiples of \<open>ulp p emin x\<close>,
  a power of two that follows the magnitude of \<open>x\<close> down to the smallest normal exponent;
  \<open>round_even\<close> picks the nearest multiple, \<open>nearest\<close> puts sign and scale back (0 stays 0),
  and a result of magnitude \<open>2 ^ (emax + 1)\<close> or more is an infinity.
\<close>

definition round_even :: "real \<Rightarrow> int" where
  "round_even y =
     (let f = \<lfloor>y\<rfloor> in
      if y - of_int f < 1 / 2 then f
      else if 1 / 2 < y - of_int f then f + 1
      else if even f then f else f + 1)"

definition ulp :: "nat \<Rightarrow> int \<Rightarrow> real \<Rightarrow> real" where
  "ulp p emin x = 2 powi (max \<lfloor>log 2 \<bar>x\<bar>\<rfloor> emin - (int p - 1))"

definition nearest :: "nat \<Rightarrow> int \<Rightarrow> real \<Rightarrow> real" where
  "nearest p emin x = sgn x * (of_int (round_even (\<bar>x\<bar> / ulp p emin x)) * ulp p emin x)"

definition round_to :: "nat \<Rightarrow> int \<Rightarrow> int \<Rightarrow> real \<Rightarrow> number" where
  "round_to p emin emax x =
     (let y = nearest p emin x in
      if 2 powi (emax + 1) \<le> \<bar>y\<bar> then (if 0 < y then PosInfinity else NegInfinity)
      else Fin y)"

text \<open>Doubles (binary64) and the singles (binary32) that a \<open>Float32Array\<close> holds.\<close>

definition round64 :: "real \<Rightarrow> number" where
  "round64 = round_to 53 (- 1022) 1023"

definition round32 :: "real \<Rightarrow> number" where
  "round32 = round_to 24 (- 126) 127"

text \<open>
  The operators \<open>+\<close>, \<open>*\<close> and \<open>/\<close> on numbers, and the conversion that a store into a
  \<open>Float32Array\<close> performs. A zero divisor is \<open>+0\<close>.
\<close>

fun fadd :: "number \<Rightarrow> number \<Rightarrow> number" where
  "fadd (Fin a) (Fin b) = round64 (a + b)"
| "fadd NaN y = NaN"
| "fadd x NaN = NaN"
| "fadd PosInfinity NegInfinity = NaN"
| "fadd NegInfinity PosInfinity = NaN"
| "fadd PosInfinity y = PosInfinity"
| "fadd x PosInfinity = PosInfinity"
| "fadd NegInfinity y = NegInfinity"
| "fadd x NegInfinity = NegInfinity"

fun fmul :: "number \<Rightarrow> number \<Rightarrow> number" where
  "fmul (Fin a) (Fin b) = round64 (a * b)"
| "fmul NaN y = NaN"
| "fmul x NaN = NaN"
| "fmul (Fin a) PosInfinity = (if a = 0 then NaN else if 0 < a then PosInfinity else NegInfinity)"
| "fmul (Fin a) NegInfinity = (if a = 0 then NaN else if 0 < a then NegInfinity else PosInfinity)"
| "fmul PosInfinity (Fin b) = (if b = 0 then NaN else if 0 < b then PosInfinity else NegInfinity)"
| "fmul NegInfinity (Fin b) = (if b = 0 then NaN else if 0 < b then NegInfinity else PosInfinity)"
| "fmul PosInfinity PosInfinity = PosInfinity"
| "fmul PosInfinity NegInfinity = NegInfinity"
| "fmul NegInfinity PosInfinity = NegInfinity"
| "fmul NegInfinity NegInfinity = PosInfinity"

fun fdiv :: "number \<Rightarrow> number \<Rightarrow> number" where
  "fdiv (Fin a) (Fin b) =
     (if b = 0 then (if a = 0 then NaN else if 0 < a then PosInfinity else NegInfinity)
      else round64 (a / b))"
| "fdiv NaN y = NaN"
| "fdiv x NaN = NaN"
| "fdiv (Fin a) PosInfinity = Fin 0"
| "fdiv (Fin a) NegInfinity = Fin 0"
| "fdiv PosInfinity (Fin b) = (if 0 \<le> b then PosInfinity else NegInfinity)"
| "fdiv NegInfinity (Fin b) = (if 0 \<le> b then NegInfinity else PosInfinity)"
| "fdiv x y = NaN"

fun to_float32 :: "number \<Rightarrow> number" where
  "to_float32 (Fin x) = round32 x"
| "to_float32 v = v"

text \<open>
  \<open>downsample\<close> and the frame size are computed with these operations: there the rounding
  decides a length, an offset or a stored sample. Two computations are left exact.
  In \<open>floatToInt16\<close> and in the script of the hidden window, the product \<open>s * 32767\<close> of a
  single \<open>s\<close> in \<open>[-1, 1]\<close> has at most 39 significant bits, so no double operation rounds it.
  In the two \<open>calculateRMS\<close> the sum, the mean and the root are those of the reals: the level
  is the value that the double computation approximates, and whether a buffer is accepted
  does not depend on rounding, since the squares of singles cannot overflow a double.
\<close>

subsection \<open>Platform calls, errors and the store\<close>

text \<open>
  Platform objects (audio nodes, streams, contexts, timers, windows, listeners, callbacks) are
  opaque handles. A call into the platform is recorded by name; whether it throws is the
  platform's choice.
\<close>

type_synonym handle = nat

datatype platform_call =
    ClearInterval handle
  | Disconnect handle
  | StopTracks handle
  | CloseContext handle
  | CreateWindow handle
  | ExecuteJavaScript handle
  | DestroyWindow handle
  | AddListener handle
  | RemoveListener handle
  | SetInterval handle

text \<open>
  The utilities throw \<open>new Error(message)\<close>; one constructor per message, with the index or
  value the message prints. \<open>InvalidTypedArrayLength\<close> is the \<open>RangeError\<close> of
  \<open>new Float32Array(newLength)\<close>, \<open>Thrown c\<close> an exception raised by the platform call \<open>c\<close>.
\<close>

datatype error =
    InvalidBuffer
  | ExpectedFloat32Array
  | InvalidValue nat
  | InvalidSourceSampleRate number
  | InvalidTargetSampleRate number
  | InvalidSampleRateRatio number
  | InvalidNewLength number
  | InvalidTypedArrayLength int
  | InvalidResult nat
  | InvalidInt16Value nat
  | AlreadyRunning
  | Thrown platform_call

text \<open>
  Typed arrays are objects: two variables may hold the same array. The store is a list of
  arrays, a reference is an index into it, and \<open>new\<close> appends. A reference beyond the store
  plays the part of \<open>null\<close>.
\<close>

datatype typed_array = Float32Array "number list" | Int16Array "int list"

type_synonym ref = nat
type_synonym heap = "typed_array list"

definition deref :: "heap \<Rightarrow> ref \<Rightarrow> typed_array option" where
  "deref h r = (if r < length h then Some (h ! r) else None)"

definition new_array :: "heap \<Rightarrow> typed_array \<Rightarrow> ref \<times> heap" where
  "new_array h a = (length h, h @ [a])"

fun array_length :: "typed_array \<Rightarrow> nat" where
  "array_length (Float32Array xs) = length xs"
| "array_length (Int16Array vs) = length vs"

text \<open>
  The language refuses a typed array longer than \<open>2^53 - 1\<close>. An engine may refuse a shorter
  one for lack of memory; that is not modelled, here or at any other allocation.
\<close>

definition max_array_length :: int where
  "max_array_length = 2 ^ 53 - 1"

section \<open>audioUtils: calculateRMS, downsample, floatToInt16\<close>

subsection \<open>calculateRMS\<close>

text \<open>
  The loop \<open>for (i = 0; i < buffer.length; i++)\<close>: the first argument is what is left of the
  buffer from index \<open>i\<close> on, the third the running \<open>sum\<close>.
\<close>

fun sum_squares :: "number list \<Rightarrow> nat \<Rightarrow> real \<Rightarrow> error + real" where
  "sum_squares [] i acc = Inr acc"
| "sum_squares (Fin x # rest) i acc = sum_squares rest (i + 1) (acc + x * x)"
| "sum_squares (v # rest) i acc = Inl (InvalidValue i)"

definition calculateRMS :: "heap \<Rightarrow> ref \<Rightarrow> error + real" where
  "calculateRMS h buffer =
     (case deref h buffer of
        None \<Rightarrow> Inl InvalidBuffer
      | Some (Int16Array vs) \<Rightarrow> if vs = [] then Inl InvalidBuffer else Inl ExpectedFloat32Array
      | Some (Float32Array xs) \<Rightarrow>
          if xs = [] then Inl InvalidBuffer
          else (case sum_squares xs 0 0 of
                  Inl e \<Rightarrow> Inl e
                | Inr acc \<Rightarrow> Inr (sqrt (acc / real (length xs)))))"

subsection \<open>downsample\<close>

text \<open>
  The inner loop \<open>for (i = offsetSource; i < nextOffsetSource && i < sourceBuffer.length; i++)\<close>,
  with \<open>accum += value\<close> a double addition.
\<close>

function accumulate :: "number list \<Rightarrow> nat \<Rightarrow> nat \<Rightarrow> number \<Rightarrow> nat \<Rightarrow> error + number \<times> nat" where
  "accumulate src nextOffsetSource i accum count =
     (if i < nextOffsetSource \<and> i < length src then
        (case src ! i of
           Fin x \<Rightarrow> accumulate src nextOffsetSource (i + 1) (fadd accum (Fin x)) (count + 1)
         | NaN \<Rightarrow> Inl (InvalidValue i)
         | PosInfinity \<Rightarrow> Inl (InvalidValue i)
         | NegInfinity \<Rightarrow> Inl (InvalidValue i))
      else Inr (accum, count))"
  by pat_completeness auto
termination
  by (relation "measure (\<lambda>(src, nextOffsetSource, i, accum, count).
                  min nextOffsetSource (length src) - i)") auto

declare accumulate.simps [simp del]

text \<open>
  \<open>nextOffsetSource = Math.round((offsetResult + 1) * sampleRateRatio)\<close> as an index. The
  ratio is positive where the loop is reached, so the product is not negative and not
  \<open>NaN\<close>. Had it overflowed, the offset would lie beyond the buffer, as the length of the
  buffer does: the inner loop stops at the end of the buffer in both cases, and does not
  run again.
\<close>

fun source_offset :: "number \<Rightarrow> nat \<Rightarrow> nat" where
  "source_offset (Fin y) len = nat (Math_round y)"
| "source_offset v len = len"

text \<open>
  The outer loop \<open>while (offsetResult < result.length)\<close>. The result is the list of the values
  written to \<open>result[offsetResult]\<close>, \<open>result[offsetResult + 1]\<close>, ...; the mean
  \<open>accum / count\<close> is a double division, and the store into the \<open>Float32Array\<close> rounds it to a
  single, which is what \<open>isFinite(result[offsetResult])\<close> then reads.
\<close>

function downsample_loop :: "number list \<Rightarrow> real \<Rightarrow> nat \<Rightarrow> nat \<Rightarrow> nat \<Rightarrow> error + number list" where
  "downsample_loop src sampleRateRatio newLength offsetResult offsetSource =
     (if offsetResult < newLength then
        (let nextOffsetSource =
               source_offset (fmul (Fin (real (offsetResult + 1))) (Fin sampleRateRatio)) (length src)
         in case accumulate src nextOffsetSource offsetSource (Fin 0) 0 of
           Inl e \<Rightarrow> Inl e
         | Inr (accum, count) \<Rightarrow>
             (let mean = (if count = 0 then Fin 0 else to_float32 (fdiv accum (Fin (real count))))
              in if \<not> isFinite mean then Inl (InvalidResult offsetResult)
                 else (case downsample_loop src sampleRateRatio newLength (offsetResult + 1)
                              nextOffsetSource of
                         Inl e \<Rightarrow> Inl e
                       | Inr rest \<Rightarrow> Inr (mean # rest))))
      else Inr [])"
  by pat_completeness auto
termination
  by (relation "measure (\<lambda>(src, sampleRateRatio, newLength, offsetResult, offsetSource).
                  newLength - offsetResult)") auto

declare downsample_loop.simps [simp del]

text \<open>
  \<open>downsample\<close> from \<open>const sampleRateRatio = sourceSampleRate / targetSampleRate\<close> on, where the
  rates are known to be finite and positive: this part works on the contents of the
  buffer. \<open>Math.round\<close> of an infinity or of \<open>NaN\<close> is that value.
\<close>

definition downsample_body :: "number list \<Rightarrow> real \<Rightarrow> real \<Rightarrow> error + number list" where
  "downsample_body src s t =
     (let sampleRateRatio = fdiv (Fin s) (Fin t) in
      case sampleRateRatio of
        Fin ratio \<Rightarrow>
          if ratio \<le> 0 then Inl (InvalidSampleRateRatio sampleRateRatio)
          else (case fdiv (Fin (real (length src))) sampleRateRatio of
                  Fin q \<Rightarrow>
                    (let newLength = Math_round q in
                     if newLength \<le> 0 then Inl (InvalidNewLength (Fin (of_int newLength)))
                     else if max_array_length < newLength then Inl (InvalidTypedArrayLength newLength)
                     else downsample_loop src ratio (nat newLength) 0 0)
                | v \<Rightarrow> Inl (InvalidNewLength v))
      | v \<Rightarrow> Inl (InvalidSampleRateRatio v))"

text \<open>
  \<open>downsample\<close>: the checks of its arguments, the early return at equal rates, and the
  result of the part above as a new array. \<open>new Float32Array(newLength)\<close> is allocated
  before the loop in the source; an array that the loop abandons by throwing is
  unreachable, so the store is extended only on success.
\<close>

definition downsample :: "heap \<Rightarrow> ref \<Rightarrow> number \<Rightarrow> number \<Rightarrow> error + ref \<times> heap" where
  "downsample h sourceBuffer sourceSampleRate targetSampleRate =
     (case deref h sourceBuffer of
        None \<Rightarrow> Inl InvalidBuffer
      | Some (Int16Array vs) \<Rightarrow> if vs = [] then Inl InvalidBuffer else Inl ExpectedFloat32Array
      | Some (Float32Array src) \<Rightarrow>
          if src = [] then Inl InvalidBuffer
          else (case sourceSampleRate of
            Fin s \<Rightarrow>
              if s \<le> 0 then Inl (InvalidSourceSampleRate sourceSampleRate)
              else (case targetSampleRate of
                Fin t \<Rightarrow>
                  if t \<le> 0 then Inl (InvalidTargetSampleRate targetSampleRate)
                  else if s = t then Inr (sourceBuffer, h)
                  else (case downsample_body src s t of
                          Inl e \<Rightarrow> Inl e
                        | Inr result \<Rightarrow> Inr (new_array h (Float32Array result)))
              | NaN \<Rightarrow> Inl (InvalidTargetSampleRate targetSampleRate)
              | PosInfinity \<Rightarrow> Inl (InvalidTargetSampleRate targetSampleRate)
              | NegInfinity \<Rightarrow> Inl (InvalidTargetSampleRate targetSampleRate))
          | NaN \<Rightarrow> Inl (InvalidSourceSampleRate sourceSampleRate)
          | PosInfinity \<Rightarrow> Inl (InvalidSourceSampleRate sourceSampleRate)
          | NegInfinity \<Rightarrow> Inl (InvalidSourceSampleRate sourceSampleRate)))"

subsection \<open>floatToInt16\<close>

text \<open>The loop of \<open>floatToInt16\<close>; the first argument is the buffer from index \<open>i\<close> on.\<close>

fun convert_samples :: "number list \<Rightarrow> nat \<Rightarrow> error + int list" where
  "convert_samples [] i = Inr []"
| "convert_samples (Fin x # rest) i =
     (let s = max (- 1) (min 1 x);
          intValue = Math_round (s * 32767)
      in if intValue < - 32768 \<or> intValue > 32767 then Inl (InvalidInt16Value i)
         else (case convert_samples rest (i + 1) of
                 Inl e \<Rightarrow> Inl e
               | Inr out \<Rightarrow> Inr (intValue # out)))"
| "convert_samples (v # rest) i = Inl (InvalidValue i)"

definition floatToInt16 :: "heap \<Rightarrow> ref \<Rightarrow> error + ref \<times> heap" where
  "floatToInt16 h floatBuffer =
     (case deref h floatBuffer of
        None \<Rightarrow> Inl InvalidBuffer
      | Some (Int16Array vs) \<Rightarrow> if vs = [] then Inl InvalidBuffer else Inl ExpectedFloat32Array
      | Some (Float32Array xs) \<Rightarrow>
          if xs = [] then Inl InvalidBuffer
          else (case convert_samples xs 0 of
                  Inl e \<Rightarrow> Inl e
                | Inr int16Buffer \<Rightarrow> Inr (new_array h (Int16Array int16Buffer))))"

text \<open>
  Modelled from the spec: \<open>int16ToFloat\<close>, which no source file defines. The spec gives it as
  the inverse scale-down \<open>value / 32768\<close>, total on the 16-bit integers.
\<close>

definition int16ToFloat :: "int \<Rightarrow> number" where
  "int16ToFloat v = Fin (real_of_int v / 32768)"


section \<open>MicCapture\<close>

record mic_capture =
  audioContext :: "handle option"
  mediaStream :: "handle option"
  sourceNode :: "handle option"
  analyserNode :: "handle option"
  silentGain :: "handle option"
  isCapturing :: bool
  sampleIntervalId :: "handle option"
  onLevelCallback :: "handle option"
  onPcmFrameCallback :: "handle option"
  targetSampleRate :: number
  sampleBuffer :: "ref list"
  samplesPerFrame :: nat
  sourceSampleRate :: number

text \<open>The field initialisers of the class: the state of \<open>new MicCapture()\<close>.\<close>

definition new_MicCapture :: mic_capture where
  "new_MicCapture =
     \<lparr>audioContext = None, mediaStream = None, sourceNode = None, analyserNode = None,
      silentGain = None, isCapturing = False, sampleIntervalId = None,
      onLevelCallback = None, onPcmFrameCallback = None, targetSampleRate = Fin 16000,
      sampleBuffer = [], samplesPerFrame = 0, sourceSampleRate = Fin 0\<rparr>"

text \<open>
  \<open>start\<close> computes the frame size from the rate of the audio context:
  \<open>frameDuration = 0.1\<close>, the double nearest to a tenth, and
  \<open>samplesPerFrame = Math.round(sourceSampleRate * frameDuration)\<close>. The rate of an audio
  context is finite and positive, and so is the product.
\<close>

definition frameDuration :: number where
  "frameDuration = round64 (1 / 10)"

definition frame_size :: "real \<Rightarrow> nat" where
  "frame_size rate = (case fmul (Fin rate) frameDuration of Fin y \<Rightarrow> nat (Math_round y) | _ \<Rightarrow> 0)"

text \<open>A callback invocation: the callback and the argument it is handed.\<close>

datatype event = Level handle real | PcmFrame handle ref

text \<open>The samples of a \<open>Float32Array\<close> of the store.\<close>

definition samples :: "heap \<Rightarrow> ref \<Rightarrow> number list" where
  "samples h r = (case deref h r of Some (Float32Array xs) \<Rightarrow> xs | _ \<Rightarrow> [])"

text \<open>
  The second half of \<open>processAudioFrame\<close>: downsample the frame, convert it and hand a copy
  to the frame callback. Every \<open>catch\<close> and every emptiness check returns without a frame.
\<close>

definition deliver_frame :: "mic_capture \<Rightarrow> heap \<Rightarrow> ref \<Rightarrow> heap \<times> event list" where
  "deliver_frame st h frameSamples =
     (case downsample h frameSamples (sourceSampleRate st) (targetSampleRate st) of
        Inl e \<Rightarrow> (h, [])
      | Inr (downsampled, h1) \<Rightarrow>
          (case deref h1 downsampled of
             None \<Rightarrow> (h1, [])
           | Some a \<Rightarrow>
               if array_length a = 0 then (h1, [])
               else (case floatToInt16 h1 downsampled of
                  Inl e \<Rightarrow> (h1, [])
                | Inr (pcm16, h2) \<Rightarrow>
                    (case deref h2 pcm16 of
                       None \<Rightarrow> (h2, [])
                     | Some b \<Rightarrow>
                         if array_length b = 0 then (h2, [])
                         else (case onPcmFrameCallback st of
                            None \<Rightarrow> (h2, [])
                          | Some cb \<Rightarrow>
                              (let (pcmCopy, h3) = new_array h2 b
                               in (h3, [PcmFrame cb pcmCopy])))))))"

text \<open>
  \<open>processAudioFrame\<close>. The third argument is what \<open>getFloatTimeDomainData\<close> writes into
  \<open>dataArray\<close>. The callbacks are consumers: they do not call back into the capture object.
\<close>

definition processAudioFrame ::
  "mic_capture \<Rightarrow> heap \<Rightarrow> number list \<Rightarrow> mic_capture \<times> heap \<times> event list" where
  "processAudioFrame st h timeDomainData =
     (if analyserNode st = None \<or> audioContext st = None then (st, h, [])
      else
        (let (dataArray, h1) = new_array h (Float32Array timeDomainData) in
         case calculateRMS h1 dataArray of
           Inl e \<Rightarrow> (st, h1, [])
         | Inr rms \<Rightarrow>
             (let levelEvents = (case onLevelCallback st of Some cb \<Rightarrow> [Level cb rms] | None \<Rightarrow> []);
                  (pushed, h2) = new_array h1 (Float32Array (samples h1 dataArray));
                  buffers = sampleBuffer st @ [pushed];
                  totalSamples = sum_list (map (\<lambda>buf. length (samples h2 buf)) buffers)
              in if totalSamples \<ge> samplesPerFrame st then
                   (let (concatenated, h3) =
                          new_array h2 (Float32Array (concat (map (samples h2) buffers)));
                        (frameSamples, h4) =
                          new_array h3 (Float32Array (take (samplesPerFrame st) (samples h3 concatenated)));
                        (remaining, h5) =
                          new_array h4 (Float32Array (drop (samplesPerFrame st) (samples h4 concatenated)));
                        st' = st\<lparr>sampleBuffer := (if length (samples h5 remaining) > 0 then [remaining] else [])\<rparr>;
                        (h6, frameEvents) = deliver_frame st' h5 frameSamples
                    in (st', h6, levelEvents @ frameEvents))
                 else (st\<lparr>sampleBuffer := buffers\<rparr>, h2, levelEvents))))"


text \<open>
  \<open>cleanup\<close>. The argument \<open>throws\<close> tells which platform calls raise an exception. A
  \<open>disconnect\<close> stands inside \<open>try { } catch { }\<close>; \<open>clearInterval\<close>, \<open>track.stop()\<close> and
  \<open>audioContext.close()\<close> do not, so an exception of theirs leaves \<open>cleanup\<close> at that point:
  the result is then \<open>Inl\<close>, with the exception, the state reached and the calls made so far.
\<close>

definition platform :: "(platform_call \<Rightarrow> bool) \<Rightarrow> platform_call \<Rightarrow> error + platform_call list" where
  "platform throws c = (if throws c then Inl (Thrown c) else Inr [c])"

definition try_disconnect :: "(platform_call \<Rightarrow> bool) \<Rightarrow> handle option \<Rightarrow> platform_call list" where
  "try_disconnect throws node =
     (case node of
        None \<Rightarrow> []
      | Some n \<Rightarrow> (case platform throws (Disconnect n) of Inl e \<Rightarrow> [] | Inr calls \<Rightarrow> calls))"

definition cleanup ::
  "(platform_call \<Rightarrow> bool) \<Rightarrow> mic_capture
     \<Rightarrow> error \<times> mic_capture \<times> platform_call list + mic_capture \<times> platform_call list" where
  "cleanup throws st =
     (case (case sampleIntervalId st of
              None \<Rightarrow> Inr []
            | Some t \<Rightarrow> platform throws (ClearInterval t)) of
        Inl e \<Rightarrow> Inl (e, st, [])
      | Inr c1 \<Rightarrow>
         (let st1 = st\<lparr>sampleIntervalId := None\<rparr>;
              c2 = try_disconnect throws (silentGain st1);
              st2 = st1\<lparr>silentGain := None\<rparr>;
              c3 = try_disconnect throws (analyserNode st2);
              st3 = st2\<lparr>analyserNode := None\<rparr>;
              c4 = try_disconnect throws (sourceNode st3);
              st4 = st3\<lparr>sourceNode := None\<rparr>
          in case (case mediaStream st4 of
                     None \<Rightarrow> Inr []
                   | Some m \<Rightarrow> platform throws (StopTracks m)) of
               Inl e \<Rightarrow> Inl (e, st4, c1 @ c2 @ c3 @ c4)
             | Inr c5 \<Rightarrow>
                (let st5 = st4\<lparr>mediaStream := None\<rparr>
                 in case (case audioContext st5 of
                            None \<Rightarrow> Inr []
                          | Some c \<Rightarrow> platform throws (CloseContext c)) of
                      Inl e \<Rightarrow> Inl (e, st5, c1 @ c2 @ c3 @ c4 @ c5)
                    | Inr c6 \<Rightarrow>
                        Inr (st5\<lparr>audioContext := None, sampleBuffer := [],
                                 onLevelCallback := None, onPcmFrameCallback := None\<rparr>,
                             c1 @ c2 @ c3 @ c4 @ c5 @ c6))))"

definition stop ::
  "(platform_call \<Rightarrow> bool) \<Rightarrow> mic_capture
     \<Rightarrow> error \<times> mic_capture \<times> platform_call list + mic_capture \<times> platform_call list" where
  "stop throws st = cleanup throws (st\<lparr>isCapturing := False\<rparr>)"

text \<open>
  The platform's contract for the calls that \<open>cleanup\<close> makes outside a \<open>try\<close>:
  \<open>clearInterval\<close> and \<open>MediaStreamTrack.stop\<close> have no exceptions, and \<open>AudioContext.close\<close>
  reports failure through the promise it returns, which \<open>cleanup\<close> catches.
\<close>

definition web_platform :: "(platform_call \<Rightarrow> bool) \<Rightarrow> bool" where
  "web_platform throws =
     (\<forall>x. \<not> throws (ClearInterval x) \<and> \<not> throws (StopTracks x) \<and> \<not> throws (CloseContext x))"

section \<open>Loopback capture: the script of the hidden window\<close>

text \<open>
  The script keeps its arrays to itself (a frame leaves it as \<open>Array.from(pcm16)\<close> through
  the message channel), so its buffers are modelled by their contents.
\<close>

record renderer =
  window_isCapturing :: bool
  renderer_sampleBuffer :: "number list list"

text \<open>\<open>const samplesPerFrame = Math.round(48000 * 0.1)\<close>.\<close>

definition renderer_samplesPerFrame :: nat where
  "renderer_samplesPerFrame =
     (case fmul (Fin 48000) (round64 (1 / 10)) of Fin y \<Rightarrow> nat (Math_round y) | _ \<Rightarrow> 0)"

text \<open>
  The conversion written out in the script, \<open>pcm16[i] = Math.round(s * 32767)\<close> with
  \<open>s = Math.max(-1, Math.min(1, frameSamples[i]))\<close>, has no check: an infinity is clamped,
  \<open>NaN\<close> stays \<open>NaN\<close> and is stored in the \<open>Int16Array\<close> as 0.
\<close>

fun to_pcm16 :: "number \<Rightarrow> int" where
  "to_pcm16 (Fin x) = Math_round (max (- 1) (min 1 x) * 32767)"
| "to_pcm16 NaN = 0"
| "to_pcm16 PosInfinity = Math_round (1 * 32767)"
| "to_pcm16 NegInfinity = Math_round (- 1 * 32767)"

text \<open>
  \<open>processFrame\<close>: the new state and the frames handed to \<open>sendPcmData\<close>. The second
  argument is what \<open>getFloatTimeDomainData\<close> writes into \<open>dataArray\<close>.
\<close>

definition processFrame :: "renderer \<Rightarrow> number list \<Rightarrow> renderer \<times> int list list" where
  "processFrame st timeDomainData =
     (if \<not> window_isCapturing st then (st, [])
      else
        (let buffers = renderer_sampleBuffer st @ [timeDomainData];
             totalSamples = sum_list (map length buffers)
         in if totalSamples \<ge> renderer_samplesPerFrame then
              (let concatenated = concat buffers;
                   frameSamples = take renderer_samplesPerFrame concatenated;
                   remaining = drop renderer_samplesPerFrame concatenated;
                   pcm16 = map to_pcm16 frameSamples
               in (st\<lparr>renderer_sampleBuffer := (if length remaining > 0 then [remaining] else [])\<rparr>,
                   [pcm16]))
            else (st\<lparr>renderer_sampleBuffer := buffers\<rparr>, [])))"

section \<open>Loopback capture: the main process\<close>

text \<open>
  The module object \<open>loopbackCapture\<close> with the module variables \<open>rmsInterval\<close> and
  \<open>lastPcmBuffer\<close>. Its \<open>isCapturing\<close> is \<open>loopback_isCapturing\<close> here.
\<close>

record loopback_capture =
  loopback_isCapturing :: bool
  hiddenWindow :: "handle option"
  pcmHandler :: "handle option"
  onPcmCallback :: "handle option"
  rmsInterval :: "handle option"
  lastPcmBuffer :: "int list option"

definition new_loopbackCapture :: loopback_capture where
  "new_loopbackCapture =
     \<lparr>loopback_isCapturing = False, hiddenWindow = None, pcmHandler = None,
      onPcmCallback = None, rmsInterval = None, lastPcmBuffer = None\<rparr>"


text \<open>
  \<open>calculateRMS\<close> of the main process, over an \<open>Int16Array\<close> (\<open>None\<close> is \<open>null\<close>).
\<close>

definition calculateRMS_loopback :: "int list option \<Rightarrow> real" where
  "calculateRMS_loopback buffer =
     (case buffer of
        None \<Rightarrow> 0
      | Some vs \<Rightarrow>
          if vs = [] then 0
          else
            (let acc = foldl (\<lambda>acc v. acc + (real_of_int v / 32768) * (real_of_int v / 32768)) 0 vs;
                 mean = acc / real (length vs);
                 rms = sqrt mean
             in min 1 (max 0 rms)))"




text \<open>
  \<open>stopRMSMonitoring\<close> and \<open>startRMSMonitoring\<close>. An exception of \<open>clearInterval\<close> leaves
  them at that point, with the state unchanged.
\<close>

definition stopRMSMonitoring ::
  "(platform_call \<Rightarrow> bool) \<Rightarrow> loopback_capture \<Rightarrow> error + loopback_capture \<times> platform_call list" where
  "stopRMSMonitoring throws st =
     (case rmsInterval st of
        None \<Rightarrow> Inr (st\<lparr>lastPcmBuffer := None\<rparr>, [])
      | Some t \<Rightarrow>
          (case platform throws (ClearInterval t) of
             Inl e \<Rightarrow> Inl e
           | Inr calls \<Rightarrow> Inr (st\<lparr>rmsInterval := None, lastPcmBuffer := None\<rparr>, calls)))"

definition startRMSMonitoring ::
  "(platform_call \<Rightarrow> bool) \<Rightarrow> loopback_capture \<Rightarrow> handle
     \<Rightarrow> error + loopback_capture \<times> platform_call list" where
  "startRMSMonitoring throws st timer =
     (case stopRMSMonitoring throws st of
        Inl e \<Rightarrow> Inl e
      | Inr (st1, calls) \<Rightarrow> Inr (st1\<lparr>rmsInterval := Some timer\<rparr>, calls @ [SetInterval timer]))"

text \<open>
  \<open>startLoopback\<close> is asynchronous: it creates the hidden window, waits for the page to
  load, and only then writes to the module object. \<open>startLoopback_begin\<close> is the part before
  the first \<open>await\<close> (the window is a local constant of the call), \<open>startLoopback_failed\<close> the
  \<open>catch\<close> block, which throws the exception again, and \<open>startLoopback_loaded\<close> the part
  that runs when the waits succeed; an exception of \<open>startRMSMonitoring\<close> takes it to the
  \<open>catch\<close> block.
\<close>

definition startLoopback_begin :: "loopback_capture \<Rightarrow> handle \<Rightarrow> error + platform_call list" where
  "startLoopback_begin st window =
     (if loopback_isCapturing st then Inl AlreadyRunning else Inr [CreateWindow window])"

definition startLoopback_failed ::
  "error \<Rightarrow> loopback_capture \<Rightarrow> error \<times> loopback_capture \<times> platform_call list" where
  "startLoopback_failed e st =
     (case hiddenWindow st of
        None \<Rightarrow> (e, st\<lparr>loopback_isCapturing := False\<rparr>, [])
      | Some w \<Rightarrow> (e, st\<lparr>hiddenWindow := None, loopback_isCapturing := False\<rparr>, [DestroyWindow w]))"

definition startLoopback_loaded ::
  "(platform_call \<Rightarrow> bool) \<Rightarrow> loopback_capture \<Rightarrow> handle \<Rightarrow> handle \<Rightarrow> handle option \<Rightarrow> handle
     \<Rightarrow> error \<times> loopback_capture \<times> platform_call list + loopback_capture \<times> platform_call list" where
  "startLoopback_loaded throws st window handler onPcm timer =
     (let st1 = st\<lparr>hiddenWindow := Some window, pcmHandler := Some handler,
                    loopback_isCapturing := True, onPcmCallback := onPcm\<rparr>
      in case startRMSMonitoring throws st1 timer of
           Inl e \<Rightarrow>
             (let (e', st2, calls) = startLoopback_failed e st1
              in Inl (e', st2, AddListener handler # calls))
         | Inr (st2, calls) \<Rightarrow> Inr (st2, AddListener handler # calls))"

text \<open>
  The \<open>try\<close> block of \<open>stopLoopback\<close>: \<open>Inl\<close> when a platform call throws, with the state
  reached so far, \<open>Inr\<close> when the block runs to its end. \<open>destroyed\<close> is the answer of
  \<open>isDestroyed()\<close>.
\<close>

definition stopLoopback_try ::
  "(handle \<Rightarrow> bool) \<Rightarrow> (platform_call \<Rightarrow> bool) \<Rightarrow> loopback_capture
     \<Rightarrow> loopback_capture \<times> platform_call list + loopback_capture \<times> platform_call list" where
  "stopLoopback_try destroyed throws st =
     (case (case hiddenWindow st of
              None \<Rightarrow> Inr (st, [])
            | Some w \<Rightarrow>
                if destroyed w then Inr (st, [])
                else (case platform throws (ExecuteJavaScript w) of
                        Inl e \<Rightarrow> Inl (st, [])
                      | Inr c1 \<Rightarrow>
                         (case platform throws (DestroyWindow w) of
                            Inl e \<Rightarrow> Inl (st, c1)
                          | Inr c2 \<Rightarrow> Inr (st\<lparr>hiddenWindow := None\<rparr>, c1 @ c2)))) of
        Inl failed \<Rightarrow> Inl failed
      | Inr (st1, calls1) \<Rightarrow>
         (case (case pcmHandler st1 of
                  None \<Rightarrow> Inr (st1, calls1)
                | Some handler \<Rightarrow>
                   (case platform throws (RemoveListener handler) of
                      Inl e \<Rightarrow> Inl (st1, calls1)
                    | Inr c3 \<Rightarrow> Inr (st1\<lparr>pcmHandler := None\<rparr>, calls1 @ c3))) of
            Inl failed \<Rightarrow> Inl failed
          | Inr (st2, calls2) \<Rightarrow>
             (case stopRMSMonitoring throws st2 of
                Inl e \<Rightarrow> Inl (st2, calls2)
              | Inr (st3, c4) \<Rightarrow>
                  Inr (st3\<lparr>loopback_isCapturing := False, onPcmCallback := None\<rparr>, calls2 @ c4))))"

definition stopLoopback ::
  "(handle \<Rightarrow> bool) \<Rightarrow> (platform_call \<Rightarrow> bool) \<Rightarrow> loopback_capture
     \<Rightarrow> error + loopback_capture \<times> platform_call list" where
  "stopLoopback destroyed throws st =
     (if \<not> loopback_isCapturing st then Inr (st, [])
      else (case stopLoopback_try destroyed throws st of
              Inr finished \<Rightarrow> Inr finished
            | Inl (st1, calls) \<Rightarrow> Inr (st1\<lparr>loopback_isCapturing := False\<rparr>, calls)))"

section \<open>Events after one another\<close>





text \<open>
  A sequence of \<open>processAudioFrame\<close> calls, each on the state and store the last one left,
  and the same for the \<open>processFrame\<close> of the hidden window.
\<close>

fun push_all ::
  "mic_capture \<Rightarrow> heap \<Rightarrow> number list list \<Rightarrow> mic_capture \<times> heap \<times> event list" where
  "push_all st h [] = (st, h, [])"
| "push_all st h (d # ds) =
     (let (st1, h1, ev1) = processAudioFrame st h d;
          (st2, h2, ev2) = push_all st1 h1 ds
      in (st2, h2, ev1 @ ev2))"

fun processFrames :: "renderer \<Rightarrow> number list list \<Rightarrow> renderer \<times> int list list" where
  "processFrames st [] = (st, [])"
| "processFrames st (d # ds) =
     (let (st1, sent1) = processFrame st d;
          (st2, sent2) = processFrames st1 ds
      in (st2, sent1 @ sent2))"

section \<open>Vocabulary of the statements\<close>

text \<open>A rate that \<open>downsample\<close> accepts: finite and positive.\<close>

definition valid_rate :: "number \<Rightarrow> bool" where
  "valid_rate r = (case r of Fin x \<Rightarrow> 0 < x | _ \<Rightarrow> False)"

text \<open>A finite sample of magnitude at most \<open>2^127\<close>: half the range of a single.\<close>

definition bounded_sample :: "number \<Rightarrow> bool" where
  "bounded_sample v = (case v of Fin x \<Rightarrow> \<bar>x\<bar> \<le> 2 ^ 127 | _ \<Rightarrow> False)"

text \<open>Nothing is held: the state that \<open>stop\<close> aims at.\<close>

definition released :: "mic_capture \<Rightarrow> bool" where
  "released st =
     (sampleIntervalId st = None \<and> silentGain st = None \<and> analyserNode st = None \<and>
      sourceNode st = None \<and> mediaStream st = None \<and> audioContext st = None \<and>
      sampleBuffer st = [] \<and> onLevelCallback st = None \<and> onPcmFrameCallback st = None \<and>
      \<not> isCapturing st)"

definition loopback_released :: "loopback_capture \<Rightarrow> bool" where
  "loopback_released st =
     (\<not> loopback_isCapturing st \<and> hiddenWindow st = None \<and> pcmHandler st = None \<and>
      onPcmCallback st = None \<and> rmsInterval st = None \<and> lastPcmBuffer st = None)"

text \<open>
  A microphone capture as a successful \<open>start\<close> leaves it, on a 48 kHz audio context with
  both callbacks given, and a loopback capture as a successful \<open>startLoopback\<close> leaves it.
\<close>

definition capturing_mic :: mic_capture where
  "capturing_mic =
     \<lparr>audioContext = Some 1, mediaStream = Some 2, sourceNode = Some 3, analyserNode = Some 4,
      silentGain = Some 5, isCapturing = True, sampleIntervalId = Some 6,
      onLevelCallback = Some 7, onPcmFrameCallback = Some 8, targetSampleRate = Fin 16000,
      sampleBuffer = [], samplesPerFrame = frame_size 48000, sourceSampleRate = Fin 48000\<rparr>"

definition capturing_loopback :: loopback_capture where
  "capturing_loopback =
     (case startLoopback_loaded (\<lambda>c. False) new_loopbackCapture 1 2 (Some 3) 4 of
        Inr (st, calls) \<Rightarrow> st
      | Inl (e, st, calls) \<Rightarrow> st)"

text \<open>
  The samples that a capture object holds in its \<open>sampleBuffer\<close>, in order, and the
  invariant that every buffered reference points into the store.
\<close>

definition buffered :: "mic_capture \<Rightarrow> heap \<Rightarrow> number list" where
  "buffered st h = concat (map (samples h) (sampleBuffer st))"

definition well_formed :: "mic_capture \<Rightarrow> heap \<Rightarrow> bool" where
  "well_formed st h = (\<forall>b\<in>set (sampleBuffer st). b < length h)"

text \<open>
  What \<open>downsample\<close> and \<open>floatToInt16\<close> make of a buffer with given contents, \<open>None\<close> when
  they throw; \<open>frame_of\<close> is the frame that \<open>processAudioFrame\<close> encodes from a run of samples.
\<close>

definition int16_contents :: "heap \<Rightarrow> ref \<Rightarrow> int list option" where
  "int16_contents h r = (case deref h r of Some (Int16Array vs) \<Rightarrow> Some vs | _ \<Rightarrow> None)"

definition downsampled :: "number \<Rightarrow> number \<Rightarrow> number list \<Rightarrow> number list option" where
  "downsampled sourceRate targetRate xs =
     (case downsample [Float32Array xs] 0 sourceRate targetRate of
        Inl e \<Rightarrow> None
      | Inr (r, h) \<Rightarrow> Some (samples h r))"

definition converted :: "number list \<Rightarrow> int list option" where
  "converted xs =
     (case floatToInt16 [Float32Array xs] 0 of
        Inl e \<Rightarrow> None
      | Inr (r, h) \<Rightarrow> int16_contents h r)"

definition frame_of :: "number \<Rightarrow> number \<Rightarrow> number list \<Rightarrow> int list option" where
  "frame_of sourceRate targetRate chunk =
     (case downsampled sourceRate targetRate chunk of
        None \<Rightarrow> None
      | Some ys \<Rightarrow> converted ys)"

text \<open>
  The contents handed to the frame callback for one run of samples: nothing without a
  callback or when the encoding throws.
\<close>

definition encoded :: "mic_capture \<Rightarrow> number list \<Rightarrow> int list option list" where
  "encoded st chunk =
     (case onPcmFrameCallback st of
        None \<Rightarrow> []
      | Some cb \<Rightarrow>
          (case frame_of (sourceSampleRate st) (targetSampleRate st) chunk of
             None \<Rightarrow> []
           | Some zs \<Rightarrow> [Some zs]))"

text \<open>The references handed to the frame callback, in the order of the calls.\<close>

fun frame_refs :: "event list \<Rightarrow> ref list" where
  "frame_refs [] = []"
| "frame_refs (Level cb x # evs) = frame_refs evs"
| "frame_refs (PcmFrame cb r # evs) = r # frame_refs evs"

text \<open>
  The complete runs of \<open>n\<close> consecutive elements of a list, and the slicing of a sequence
  of blocks that takes at most one run per block.
\<close>

definition chunks_of :: "nat \<Rightarrow> 'a list \<Rightarrow> 'a list list" where
  "chunks_of n xs = map (\<lambda>k. take n (drop (k * n) xs)) [0..<length xs div n]"

fun assemble :: "nat \<Rightarrow> 'a list \<Rightarrow> 'a list list \<Rightarrow> 'a list list \<times> 'a list" where
  "assemble n buf [] = ([], buf)"
| "assemble n buf (b # bs) =
     (if n \<le> length (buf @ b)
      then (take n (buf @ b) # fst (assemble n (drop n (buf @ b)) bs),
            snd (assemble n (drop n (buf @ b)) bs))
      else assemble n (buf @ b) bs)"

text \<open>
  Small examples: a microphone capture on a context of 20 Hz (2 samples per frame, no
  resampling), the store after its first frame, and the script of the hidden window at
  its start.
\<close>

definition slow_mic :: mic_capture where
  "slow_mic = capturing_mic\<lparr>sourceSampleRate := Fin 20, targetSampleRate := Fin 20,
                             samplesPerFrame := frame_size 20\<rparr>"

definition slow_mic_store :: heap where
  "slow_mic_store =
     [Float32Array [Fin (1 / 2), Fin (1 / 2), Fin (- 1 / 2), Fin (- 1 / 2)],
      Float32Array [Fin (1 / 2), Fin (1 / 2), Fin (- 1 / 2), Fin (- 1 / 2)],
      Float32Array [Fin (1 / 2), Fin (1 / 2), Fin (- 1 / 2), Fin (- 1 / 2)],
      Float32Array [Fin (1 / 2), Fin (1 / 2)],
      Float32Array [Fin (- 1 / 2), Fin (- 1 / 2)],
      Int16Array [16384, 16384],
      Int16Array [16384, 16384]]"

definition capturing_renderer :: renderer where
  "capturing_renderer = \<lparr>window_isCapturing = True, renderer_sampleBuffer = []\<rparr>"

section \<open>Properties of the rounding\<close>

subsection \<open>The nearest multiple\<close>

lemma round_even_of_int [simp]: "round_even (of_int k) = k"
  by (simp add: round_even_def)

lemma round_even_range: "\<lfloor>y\<rfloor> \<le> round_even y" "round_even y \<le> \<lfloor>y\<rfloor> + 1"
  by (simp_all add: round_even_def Let_def)

lemma round_even_mono: "y \<le> y' \<Longrightarrow> round_even y \<le> round_even y'"
proof -
  assume le: "y \<le> y'"
  then have fl: "\<lfloor>y\<rfloor> \<le> \<lfloor>y'\<rfloor>" by (rule floor_mono)
  show ?thesis
  proof (cases "\<lfloor>y\<rfloor> = \<lfloor>y'\<rfloor>")
    case True
    with le show ?thesis by (auto simp: round_even_def Let_def)
  next
    case False
    with fl have "\<lfloor>y\<rfloor> + 1 \<le> \<lfloor>y'\<rfloor>" by simp
    with round_even_range(2) [of y] round_even_range(1) [of y'] show ?thesis by linarith
  qed
qed

lemma round_even_error: "\<bar>of_int (round_even y) - y\<bar> \<le> 1 / 2"
  unfolding round_even_def Let_def by (auto; linarith)

lemma round_even_le_int: "y \<le> of_int k \<Longrightarrow> round_even y \<le> k"
  using round_even_mono [of y "of_int k"] by simp

lemma round_even_ge_int: "of_int k \<le> y \<Longrightarrow> k \<le> round_even y"
  using round_even_mono [of "of_int k" y] by simp

lemma ulp_pos [simp]: "0 < ulp p emin x"
  by (simp add: ulp_def)

lemma ulp_minus [simp]: "ulp p emin (- x) = ulp p emin x"
  by (simp add: ulp_def)

lemma nearest_0 [simp]: "nearest p emin 0 = 0"
  by (simp add: nearest_def)

lemma nearest_minus: "nearest p emin (- x) = - nearest p emin x"
  by (simp add: nearest_def sgn_minus)

lemma two_powi_pos: "0 < (2::real) powi k"
  by simp

lemma two_powr_powi: "2 powr real_of_int k = (2::real) powi k"
  by (simp add: powr_real_of_int')

lemma two_powi_log:
  assumes "0 < x"
  shows "2 powi \<lfloor>log 2 x\<rfloor> \<le> x" "x < 2 powi (\<lfloor>log 2 x\<rfloor> + 1)"
proof -
  from floor_log_eq_powr_iff [of x 2 "\<lfloor>log 2 x\<rfloor>"] assms
  have "2 powr real_of_int \<lfloor>log 2 x\<rfloor> \<le> x \<and> x < 2 powr real_of_int (\<lfloor>log 2 x\<rfloor> + 1)" by simp
  then show "2 powi \<lfloor>log 2 x\<rfloor> \<le> x" "x < 2 powi (\<lfloor>log 2 x\<rfloor> + 1)"
    unfolding two_powr_powi by blast+
qed

lemma floor_log2_eq:
  assumes "2 powi e \<le> x" "x < 2 powi (e + 1)"
  shows "\<lfloor>log 2 x\<rfloor> = e"
proof -
  have "0 < (2::real) powi e" by simp
  with assms(1) have pos: "0 < x" by linarith
  have "(\<lfloor>log 2 x\<rfloor> = e) = (2 powr real_of_int e \<le> x \<and> x < 2 powr real_of_int (e + 1))"
    by (rule floor_log_eq_powr_iff [OF pos]) simp
  with assms show ?thesis unfolding two_powr_powi by blast
qed

lemma ulp_nonneg [simp]: "0 \<le> ulp p emin x"
  by (simp add: ulp_def)

lemma ulp_neq_0 [simp]: "ulp p emin x \<noteq> 0"
  by (simp add: ulp_def)

lemma ulp_normal:
  assumes "2 powi e \<le> \<bar>x\<bar>" "\<bar>x\<bar> < 2 powi (e + 1)" "emin \<le> e"
  shows "ulp p emin x = 2 powi (e - (int p - 1))"
  using floor_log2_eq [OF assms(1,2)] assms(3) by (simp add: ulp_def max_def)

lemma scaled_less:
  assumes "0 < x"
  shows "x / ulp p emin x < 2 ^ p"
proof -
  let ?l = "\<lfloor>log 2 \<bar>x\<bar>\<rfloor>"
  let ?e = "max ?l emin"
  have "x < 2 powi (?l + 1)" using two_powi_log(2) [of x] assms by simp
  also have "\<dots> \<le> 2 powi (?e + 1)" by (intro power_int_increasing) simp_all
  also have "?e + 1 = (?e - (int p - 1)) + int p" by simp
  also have "(2::real) powi \<dots> = 2 powi (?e - (int p - 1)) * 2 powi (int p)"
    by (rule power_int_add) simp
  finally have "x < ulp p emin x * 2 ^ p" by (simp add: ulp_def)
  then show ?thesis by (simp add: field_simps)
qed

lemma scaled_ge:
  assumes "0 < x" "emin \<le> \<lfloor>log 2 x\<rfloor>" "0 < p"
  shows "2 ^ (p - 1) \<le> x / ulp p emin x"
proof -
  let ?l = "\<lfloor>log 2 \<bar>x\<bar>\<rfloor>"
  have l: "?l = \<lfloor>log 2 x\<rfloor>" using assms(1) by simp
  have u: "ulp p emin x = 2 powi (?l - (int p - 1))" using assms(2) l by (simp add: ulp_def max_def)
  have "?l = (?l - (int p - 1)) + int (p - 1)" using assms(3) by simp
  then have "(2::real) powi ?l = 2 powi ((?l - (int p - 1)) + int (p - 1))" by simp
  also have "\<dots> = 2 powi (?l - (int p - 1)) * 2 powi (int (p - 1))"
    by (rule power_int_add) simp
  finally have "(2::real) powi ?l = ulp p emin x * 2 ^ (p - 1)" by (simp add: u)
  moreover have "2 powi ?l \<le> x" using two_powi_log(1) [of x] assms(1) by simp
  ultimately have "ulp p emin x * 2 ^ (p - 1) \<le> x" by simp
  then show ?thesis by (simp add: field_simps)
qed

lemma nearest_pos:
  assumes "0 < x"
  shows "nearest p emin x = of_int (round_even (x / ulp p emin x)) * ulp p emin x"
  using assms by (simp add: nearest_def)

lemma nearest_nonneg:
  assumes "0 \<le> x"
  shows "0 \<le> nearest p emin x"
proof (cases "x = 0")
  case False
  with assms have pos: "0 < x" by simp
  have "0 \<le> x / ulp p emin x" using pos by simp
  then have "0 \<le> round_even (x / ulp p emin x)" using round_even_ge_int [of 0] by simp
  then show ?thesis unfolding nearest_pos [OF pos] by simp
qed simp

lemma nearest_le_binade:
  assumes "0 < x"
  shows "nearest p emin x \<le> 2 powi (max \<lfloor>log 2 x\<rfloor> emin + 1)"
proof -
  let ?e = "max \<lfloor>log 2 \<bar>x\<bar>\<rfloor> emin"
  have "x / ulp p emin x \<le> of_int (2 ^ p)" using scaled_less [OF assms, of p emin] by simp
  then have "round_even (x / ulp p emin x) \<le> 2 ^ p" by (rule round_even_le_int)
  then have "real_of_int (round_even (x / ulp p emin x)) \<le> 2 ^ p"
    by (metis of_int_le_iff of_int_numeral of_int_power)
  then have "nearest p emin x \<le> 2 ^ p * ulp p emin x"
    unfolding nearest_pos [OF assms] by (simp add: mult_right_mono)
  also have "\<dots> = 2 powi (int p) * 2 powi (?e - (int p - 1))" by (simp add: ulp_def)
  also have "\<dots> = 2 powi (int p + (?e - (int p - 1)))" by (rule power_int_add [symmetric]) simp
  also have "int p + (?e - (int p - 1)) = ?e + 1" by simp
  finally show ?thesis using assms by simp
qed

lemma nearest_ge_binade:
  assumes "0 < x" "emin \<le> \<lfloor>log 2 x\<rfloor>" "0 < p"
  shows "2 powi \<lfloor>log 2 x\<rfloor> \<le> nearest p emin x"
proof -
  let ?l = "\<lfloor>log 2 \<bar>x\<bar>\<rfloor>"
  have l: "?l = \<lfloor>log 2 x\<rfloor>" using assms(1) by simp
  have u: "ulp p emin x = 2 powi (?l - (int p - 1))" using assms(2) l by (simp add: ulp_def max_def)
  have "of_int (2 ^ (p - 1)) \<le> x / ulp p emin x" using scaled_ge [OF assms] by simp
  then have "2 ^ (p - 1) \<le> round_even (x / ulp p emin x)" by (rule round_even_ge_int)
  then have "2 ^ (p - 1) \<le> real_of_int (round_even (x / ulp p emin x))"
    by (metis of_int_le_iff of_int_numeral of_int_power)
  then have "2 ^ (p - 1) * ulp p emin x \<le> nearest p emin x"
    unfolding nearest_pos [OF assms(1)] by (simp add: mult_right_mono)
  moreover have "2 ^ (p - 1) * ulp p emin x = 2 powi (int (p - 1)) * 2 powi (?l - (int p - 1))"
    by (simp add: u)
  moreover have "\<dots> = 2 powi (int (p - 1) + (?l - (int p - 1)))"
    by (rule power_int_add [symmetric]) simp
  moreover have "int (p - 1) + (?l - (int p - 1)) = ?l" using assms(3) by simp
  ultimately show ?thesis using l by simp
qed

lemma nearest_mono_pos:
  assumes "0 < x" "x \<le> y" "0 < p"
  shows "nearest p emin x \<le> nearest p emin y"
proof -
  have ypos: "0 < y" using assms by simp
  have "log 2 x \<le> log 2 y" using assms by simp
  then have fl: "\<lfloor>log 2 x\<rfloor> \<le> \<lfloor>log 2 y\<rfloor>" by (rule floor_mono)
  show ?thesis
  proof (cases "max \<lfloor>log 2 x\<rfloor> emin = max \<lfloor>log 2 y\<rfloor> emin")
    case True
    then have u: "ulp p emin x = ulp p emin y" using assms(1) ypos by (simp add: ulp_def)
    have "x / ulp p emin y \<le> y / ulp p emin y" using assms(2) by (simp add: divide_right_mono)
    then have "round_even (x / ulp p emin y) \<le> round_even (y / ulp p emin y)"
      by (rule round_even_mono)
    then show ?thesis unfolding nearest_pos [OF assms(1)] nearest_pos [OF ypos] u
      by (simp add: mult_right_mono)
  next
    case False
    with fl have lt: "max \<lfloor>log 2 x\<rfloor> emin < \<lfloor>log 2 y\<rfloor>" and n: "emin \<le> \<lfloor>log 2 y\<rfloor>"
      by (auto simp: max_def split: if_splits)
    have "nearest p emin x \<le> 2 powi (max \<lfloor>log 2 x\<rfloor> emin + 1)" by (rule nearest_le_binade [OF assms(1)])
    also have "\<dots> \<le> 2 powi \<lfloor>log 2 y\<rfloor>"
    proof (intro power_int_increasing)
      show "max \<lfloor>log 2 x\<rfloor> emin + 1 \<le> \<lfloor>log 2 y\<rfloor>" using lt by linarith
    qed simp
    also have "\<dots> \<le> nearest p emin y" by (rule nearest_ge_binade [OF ypos n assms(3)])
    finally show ?thesis .
  qed
qed

lemma nearest_mono:
  assumes "x \<le> y" "0 < p"
  shows "nearest p emin x \<le> nearest p emin y"
proof -
  consider "0 < x" | "x \<le> 0" "0 \<le> y" | "y < 0" by linarith
  then show ?thesis
  proof cases
    case 1
    then show ?thesis by (rule nearest_mono_pos [OF _ assms])
  next
    case 2
    have "nearest p emin x \<le> 0"
      using nearest_nonneg [of "- x" p emin] 2(1) by (simp add: nearest_minus)
    also have "0 \<le> nearest p emin y" by (rule nearest_nonneg [OF 2(2)])
    finally show ?thesis .
  next
    case 3
    then have "0 < - y" "- y \<le> - x" using assms(1) by simp_all
    from nearest_mono_pos [OF this assms(2), of emin] show ?thesis by (simp add: nearest_minus)
  qed
qed

lemma nearest_error: "\<bar>nearest p emin x - x\<bar> \<le> ulp p emin x / 2"
proof (cases "x = 0")
  case True
  then show ?thesis by simp
next
  case False
  let ?u = "ulp p emin x"
  have x: "x = sgn x * \<bar>x\<bar>" by (simp add: sgn_mult_abs)
  have "nearest p emin x - x = sgn x * (of_int (round_even (\<bar>x\<bar> / ?u)) * ?u - \<bar>x\<bar>)"
    unfolding nearest_def by (subst (3) x) (simp add: algebra_simps)
  also have "of_int (round_even (\<bar>x\<bar> / ?u)) * ?u - \<bar>x\<bar> = (of_int (round_even (\<bar>x\<bar> / ?u)) - \<bar>x\<bar> / ?u) * ?u"
    by (simp add: field_simps)
  finally have "\<bar>nearest p emin x - x\<bar> = \<bar>of_int (round_even (\<bar>x\<bar> / ?u)) - \<bar>x\<bar> / ?u\<bar> * ?u"
    using False by (simp add: abs_mult abs_sgn_eq)
  also have "\<dots> \<le> 1 / 2 * ?u"
    by (intro mult_right_mono round_even_error) simp
  finally show ?thesis by simp
qed

lemma nearest_exact:
  assumes "\<bar>m\<bar> < 2 ^ p" "emin - (int p - 1) \<le> k"
  shows "nearest p emin (of_int m * 2 powi k) = of_int m * 2 powi k"
proof (cases "m = 0")
  case True
  then show ?thesis by simp
next
  case False
  define x where "x = real_of_int m * 2 powi k"
  define q where "q = max \<lfloor>log 2 \<bar>x\<bar>\<rfloor> emin - (int p - 1)"
  define a where "a = real_of_int \<bar>m\<bar>"
  have ax: "\<bar>x\<bar> = a * 2 powi k" by (simp add: x_def a_def abs_mult)
  have pos: "0 < \<bar>x\<bar>" using False by (simp add: x_def)
  have "a < 2 ^ p" unfolding a_def using assms(1) by (metis of_int_less_iff of_int_numeral of_int_power)
  then have "\<bar>x\<bar> < 2 ^ p * 2 powi k" unfolding ax by (simp add: mult_strict_right_mono)
  also have "\<dots> = 2 powi (int p) * 2 powi k" by simp
  also have "\<dots> = 2 powi (int p + k)" by (rule power_int_add [symmetric]) simp
  finally have up: "\<bar>x\<bar> < 2 powi (int p + k)" .
  have "\<lfloor>log 2 \<bar>x\<bar>\<rfloor> < int p + k"
  proof (rule ccontr)
    assume "\<not> \<lfloor>log 2 \<bar>x\<bar>\<rfloor> < int p + k"
    then have "(2::real) powi (int p + k) \<le> 2 powi \<lfloor>log 2 \<bar>x\<bar>\<rfloor>" by (intro power_int_increasing) simp_all
    with two_powi_log(1) [OF pos] up show False by linarith
  qed
  with assms(2) have qk: "q \<le> k" by (simp add: q_def)
  have u: "ulp p emin x = 2 powi q" by (simp add: ulp_def q_def)
  have "2 powi k = (2::real) powi (q + (k - q))" by simp
  also have "\<dots> = 2 powi q * 2 powi (k - q)" by (rule power_int_add) simp
  also have "2 powi (k - q) = (2::real) ^ nat (k - q)" using qk by (simp add: power_int_def)
  finally have k: "(2::real) powi k = 2 powi q * 2 ^ nat (k - q)" .
  have "\<bar>x\<bar> / ulp p emin x = a * 2 ^ nat (k - q)"
    unfolding ax u k by simp
  also have "\<dots> = of_int (\<bar>m\<bar> * 2 ^ nat (k - q))" by (simp add: a_def)
  finally have "round_even (\<bar>x\<bar> / ulp p emin x) = \<bar>m\<bar> * 2 ^ nat (k - q)"
    by (simp only: round_even_of_int)
  then have "nearest p emin x = sgn x * (of_int (\<bar>m\<bar> * 2 ^ nat (k - q)) * 2 powi q)"
    unfolding nearest_def u by simp
  also have "of_int (\<bar>m\<bar> * 2 ^ nat (k - q)) * 2 powi q = \<bar>x\<bar>"
    unfolding ax k by (simp add: a_def)
  finally show ?thesis unfolding x_def [symmetric] by (simp add: sgn_mult_abs)
qed

lemma ulp_le_relative:
  assumes "2 powi emin \<le> \<bar>x\<bar>" "0 < p"
  shows "ulp p emin x \<le> \<bar>x\<bar> * 2 powi (1 - int p)"
proof -
  have pos: "0 < \<bar>x\<bar>" using assms(1) two_powi_pos [of emin] by linarith
  let ?l = "\<lfloor>log 2 \<bar>x\<bar>\<rfloor>"
  have "emin \<le> ?l"
  proof (rule ccontr)
    assume "\<not> emin \<le> ?l"
    then have "(2::real) powi (?l + 1) \<le> 2 powi emin" by (intro power_int_increasing) simp_all
    with two_powi_log(2) [OF pos] assms(1) show False by linarith
  qed
  then have "ulp p emin x = 2 powi (?l + (1 - int p))" by (simp add: ulp_def max_def algebra_simps)
  also have "\<dots> = 2 powi ?l * 2 powi (1 - int p)" by (rule power_int_add) simp
  also have "\<dots> \<le> \<bar>x\<bar> * 2 powi (1 - int p)"
    using two_powi_log(1) [OF pos] by (intro mult_right_mono) simp_all
  finally show ?thesis .
qed

subsection \<open>Rounded results\<close>

lemma nearest_normal:
  assumes "2 powi e \<le> \<bar>x\<bar>" "\<bar>x\<bar> < 2 powi (e + 1)" "emin \<le> e"
  shows "nearest p emin x =
           sgn x * (of_int (round_even (\<bar>x\<bar> / 2 powi (e - (int p - 1)))) * 2 powi (e - (int p - 1)))"
  unfolding nearest_def ulp_normal [OF assms] ..

lemma round_to_normal:
  assumes "2 powi e \<le> \<bar>x\<bar>" "\<bar>x\<bar> < 2 powi (e + 1)" "emin \<le> e" "e < emax"
  shows "round_to p emin emax x =
           Fin (sgn x * (of_int (round_even (\<bar>x\<bar> / 2 powi (e - (int p - 1)))) * 2 powi (e - (int p - 1))))"
proof -
  have pos: "0 < \<bar>x\<bar>" using assms(1) two_powi_pos [of e] by linarith
  have "\<bar>nearest p emin x\<bar> = nearest p emin \<bar>x\<bar>"
    using nearest_nonneg [of "\<bar>x\<bar>" p emin] nearest_minus [of p emin x]
    by (cases "0 \<le> x") (simp_all add: abs_if)
  also have "\<dots> \<le> 2 powi (max \<lfloor>log 2 \<bar>x\<bar>\<rfloor> emin + 1)" by (rule nearest_le_binade [OF pos])
  also have "\<lfloor>log 2 \<bar>x\<bar>\<rfloor> = e" by (rule floor_log2_eq [OF assms(1,2)])
  also have "max e emin = e" using assms(3) by simp
  also have "2 powi (e + 1) \<le> (2::real) powi emax" using assms(4) by (intro power_int_increasing) simp_all
  also have "\<dots> < 2 powi (emax + 1)" by (intro power_int_strict_increasing) simp_all
  finally have "\<not> 2 powi (emax + 1) \<le> \<bar>nearest p emin x\<bar>" by simp
  then show ?thesis
    unfolding round_to_def Let_def nearest_normal [OF assms(1,2,3), symmetric] by simp
qed

lemma round_to_0 [simp]: "round_to p emin emax 0 = Fin 0"
proof -
  have "0 < (2::real) powi (emax + 1)" by simp
  then have "\<not> (2::real) powi (emax + 1) \<le> 0" by (simp only: not_le)
  then show ?thesis by (simp add: round_to_def)
qed

lemma abs_nearest: "\<bar>nearest p emin x\<bar> = nearest p emin \<bar>x\<bar>"
  using nearest_nonneg [of "\<bar>x\<bar>" p emin] nearest_minus [of p emin x]
  by (cases "0 \<le> x") (simp_all add: abs_if)

lemma round_to_Fin:
  "\<bar>nearest p emin x\<bar> < 2 powi (emax + 1) \<Longrightarrow> round_to p emin emax x = Fin (nearest p emin x)"
  by (simp add: round_to_def Let_def)

lemma round_to_bounded:
  assumes "\<bar>x\<bar> \<le> c" "nearest p emin c = c" "c < 2 powi (emax + 1)" "0 < p"
  shows "\<exists>y. round_to p emin emax x = Fin y \<and> \<bar>y\<bar> \<le> c"
proof -
  have "nearest p emin \<bar>x\<bar> \<le> nearest p emin c" by (rule nearest_mono [OF assms(1,4)])
  then have b: "\<bar>nearest p emin x\<bar> \<le> c" unfolding abs_nearest assms(2) .
  with assms(3) have "\<bar>nearest p emin x\<bar> < 2 powi (emax + 1)" by simp
  from round_to_Fin [OF this] b show ?thesis by simp
qed

lemma round_to_exact:
  assumes "\<bar>m\<bar> < 2 ^ p" "emin - (int p - 1) \<le> k"
    and "\<bar>real_of_int m * 2 powi k\<bar> < 2 powi (emax + 1)"
  shows "round_to p emin emax (of_int m * 2 powi k) = Fin (of_int m * 2 powi k)"
  using assms(3) round_to_Fin [of p emin "of_int m * 2 powi k" emax]
  unfolding nearest_exact [OF assms(1,2)] by simp

lemma round64_of_int:
  assumes "\<bar>k\<bar> < 2 ^ 53"
  shows "round64 (of_int k) = Fin (of_int k)"
proof -
  have "\<bar>real_of_int k\<bar> < 2 ^ 53" using assms by (metis of_int_abs of_int_less_iff of_int_numeral of_int_power)
  also have "\<dots> < (2::real) powi (1023 + 1)" by simp
  finally have "\<bar>real_of_int k * 2 powi 0\<bar> < 2 powi (1023 + 1)" by simp
  from round_to_exact [of k 53 "- 1022" 0 1023, OF assms _ this] show ?thesis
    by (simp add: round64_def)
qed

lemma round64_numeral:
  "(numeral n :: int) < 2 ^ 53 \<Longrightarrow> round64 (numeral n) = Fin (numeral n)"
  using round64_of_int [of "numeral n"] by simp

lemma round64_1 [simp]: "round64 1 = Fin 1"
  using round64_of_int [of 1] by simp

lemma round64_0 [simp]: "round64 0 = Fin 0"
  by (simp add: round64_def)

lemma round32_0 [simp]: "round32 0 = Fin 0"
  by (simp add: round32_def)

lemma round_to_FinD: "round_to p emin emax x = Fin y \<Longrightarrow> y = nearest p emin x"
  by (simp add: round_to_def Let_def split: if_splits)

lemma round64_le:
  assumes "round64 x = Fin y" "x \<le> c" "nearest 53 (- 1022) c = c"
  shows "y \<le> c"
proof -
  from round_to_FinD [OF assms(1) [unfolded round64_def]] have "y = nearest 53 (- 1022) x" .
  also have "\<dots> \<le> nearest 53 (- 1022) c" by (rule nearest_mono [OF assms(2)]) simp
  finally show ?thesis unfolding assms(3) .
qed

lemma round64_ge:
  assumes "round64 x = Fin y" "c \<le> x" "nearest 53 (- 1022) c = c"
  shows "c \<le> y"
proof -
  from round_to_FinD [OF assms(1) [unfolded round64_def]] have y: "y = nearest 53 (- 1022) x" .
  have "nearest 53 (- 1022) c \<le> nearest 53 (- 1022) x" by (rule nearest_mono [OF assms(2)]) simp
  then show ?thesis unfolding assms(3) y .
qed

lemma representable_nat64: "n < 2 ^ 53 \<Longrightarrow> nearest 53 (- 1022) (real n) = real n"
proof -
  assume "n < 2 ^ 53"
  then have "\<bar>int n\<bar> < 2 ^ 53" by (simp add: nat_less_iff flip: of_nat_power)
  from nearest_exact [of "int n" 53 "- 1022" 0, OF this] show ?thesis by simp
qed

lemma Math_round_mono: "x \<le> y \<Longrightarrow> Math_round x \<le> Math_round y"
  unfolding Math_round_def by (intro floor_mono) simp

lemma Math_round_of_nat [simp]: "Math_round (real n) = int n"
  unfolding Math_round_def by linarith

lemma round64_error:
  assumes "round64 x = Fin y" "2 powi (- 1022) \<le> \<bar>x\<bar>"
  shows "\<bar>y - x\<bar> \<le> \<bar>x\<bar> * 2 powi (- 53)"
proof -
  from round_to_FinD [OF assms(1) [unfolded round64_def]] have y: "y = nearest 53 (- 1022) x" .
  have "\<bar>y - x\<bar> \<le> ulp 53 (- 1022) x / 2" unfolding y by (rule nearest_error)
  also have "\<dots> \<le> (\<bar>x\<bar> * 2 powi (1 - int 53)) / 2"
    by (intro divide_right_mono ulp_le_relative [OF assms(2)]) simp_all
  also have "\<dots> = \<bar>x\<bar> * 2 powi (- 53)" by simp
  finally show ?thesis .
qed

text \<open>At a ratio of 3 the rounded quotient rounds to the same integer as the exact third.\<close>

lemma third_rounds_alike:
  assumes "round64 (real n / 3) = Fin q" "n < 2 ^ 31"
  shows "Math_round q = Math_round (real n / 3)"
proof (cases "n = 0")
  case True
  with assms(1) show ?thesis by simp
next
  case False
  define x where "x = real n / 3"
  define j where "j = Math_round x"
  have n1: "1 \<le> real n" using False by simp
  then have xpos: "1 / 3 \<le> x" by (simp add: x_def)
  have small: "(2::real) powi (- 1022) \<le> 1 / 3" by (simp add: power_int_minus)
  have nb: "real n < 2 ^ 31" using assms(2) by (metis of_nat_less_iff of_nat_numeral of_nat_power)
  have "\<bar>q - x\<bar> \<le> \<bar>x\<bar> * 2 powi (- 53)"
    using round64_error [of x q] assms(1) xpos small by (simp add: x_def)
  also have "\<dots> < 1 / 6" using xpos nb by (simp add: x_def power_int_minus field_simps)
  finally have err: "\<bar>q - x\<bar> < 1 / 6" .
  have j1: "real_of_int j \<le> x + 1 / 2" "x + 1 / 2 < real_of_int j + 1"
    unfolding j_def Math_round_def by linarith+
  have "real_of_int (6 * j) \<le> real_of_int (2 * int n + 3)"
       "real_of_int (2 * int n + 3) < real_of_int (6 * j + 6)"
    using j1 by (simp_all add: x_def field_simps)
  then have "6 * j \<le> 2 * int n + 3" "2 * int n + 3 < 6 * j + 6"
    by (simp_all only: of_int_le_iff of_int_less_iff)
  then have "6 * j + 1 \<le> 2 * int n + 3" "2 * int n + 3 \<le> 6 * j + 5" by presburger+
  then have "real_of_int (6 * j + 1) \<le> real_of_int (2 * int n + 3)"
       "real_of_int (2 * int n + 3) \<le> real_of_int (6 * j + 5)"
    by (simp_all only: of_int_le_iff)
  then have j2: "real_of_int j + 1 / 6 \<le> x + 1 / 2" "x + 1 / 2 \<le> real_of_int j + 5 / 6"
    by (simp_all add: x_def field_simps)
  have "\<lfloor>q + 1 / 2\<rfloor> = j"
    using j2 err by (intro floor_unique) linarith+
  then show ?thesis by (simp add: Math_round_def j_def x_def)
qed

lemma round64_dyadic:
  assumes "\<bar>m\<bar> < 2 ^ 53" "k \<le> 1074"
  shows "round64 (of_int m / 2 ^ k) = Fin (of_int m / 2 ^ k)"
proof -
  have e: "real_of_int m / 2 ^ k = real_of_int m * 2 powi (- int k)"
    by (simp add: power_int_minus field_simps)
  have "\<bar>real_of_int m\<bar> < 2 ^ 53" using assms(1) by (metis of_int_abs of_int_less_iff of_int_numeral of_int_power)
  moreover have "(2::real) powi (- int k) \<le> 1" by (simp add: power_int_minus field_simps)
  ultimately have "\<bar>real_of_int m\<bar> * 2 powi (- int k) < 2 ^ 53 * 1"
    by (intro mult_less_le_imp_less) simp_all
  also have "\<dots> < (2::real) powi (1023 + 1)" by simp
  finally have b: "\<bar>real_of_int m * 2 powi (- int k)\<bar> < 2 powi (1023 + 1)"
    by (simp add: abs_mult)
  have k: "- 1022 - (int 53 - 1) \<le> - int k" using assms(2) by simp
  from round_to_exact [OF assms(1) k b] show ?thesis unfolding e round64_def .
qed

lemma round32_dyadic:
  assumes "\<bar>m\<bar> < 2 ^ 24" "k \<le> 149"
  shows "round32 (of_int m / 2 ^ k) = Fin (of_int m / 2 ^ k)"
proof -
  have e: "real_of_int m / 2 ^ k = real_of_int m * 2 powi (- int k)"
    by (simp add: power_int_minus field_simps)
  have "\<bar>real_of_int m\<bar> < 2 ^ 24" using assms(1) by (metis of_int_abs of_int_less_iff of_int_numeral of_int_power)
  moreover have "(2::real) powi (- int k) \<le> 1" by (simp add: power_int_minus field_simps)
  ultimately have "\<bar>real_of_int m\<bar> * 2 powi (- int k) < 2 ^ 24 * 1"
    by (intro mult_less_le_imp_less) simp_all
  also have "\<dots> < (2::real) powi (127 + 1)" by simp
  finally have b: "\<bar>real_of_int m * 2 powi (- int k)\<bar> < 2 powi (127 + 1)"
    by (simp add: abs_mult)
  have k: "- 126 - (int 24 - 1) \<le> - int k" using assms(2) by simp
  from round_to_exact [OF assms(1) k b] show ?thesis unfolding e round32_def .
qed

subsection \<open>Some doubles\<close>

lemma fdiv_Fin: "b \<noteq> 0 \<Longrightarrow> fdiv (Fin a) (Fin b) = round64 (a / b)"
  by simp

lemma quotient_48000_44100:
  "fdiv (Fin 48000) (Fin 44100) = Fin (4901877145437275 / 4503599627370496)"
  apply (subst fdiv_Fin)
   apply simp
  apply (unfold round64_def)
  apply (subst round_to_normal [where e = 0])
      apply (simp_all add: round_even_def)
  done

lemma quotient_240:
  "fdiv (Fin 240) (Fin (4901877145437275 / 4503599627370496))
     = Fin (7758154045587455 / 35184372088832)"
  apply (subst fdiv_Fin)
   apply simp
  apply (unfold round64_def)
  apply (subst round_to_normal [where e = 7])
      apply (simp_all add: round_even_def)
  done

lemma round64_examples:
  "round64 3 = Fin 3" "round64 (1 / 4) = Fin (1 / 4)" "round64 (3 / 4) = Fin (3 / 4)"
  "round64 (3 / 2) = Fin (3 / 2)" "round64 (1 / 2) = Fin (1 / 2)" "round64 1600 = Fin 1600"
  using round64_dyadic [of 3 0] round64_dyadic [of 1 2] round64_dyadic [of 3 2]
    round64_dyadic [of 3 1] round64_dyadic [of 1 1] round64_dyadic [of 1600 0]
  by simp_all

lemma round32_examples:
  "round32 1 = Fin 1" "round32 (1 / 2) = Fin (1 / 2)"
  using round32_dyadic [of 1 0] round32_dyadic [of 1 1] by simp_all

lemma round64_tenth: "round64 (1 / 10) = Fin (3602879701896397 / 36028797018963968)"
  unfolding round64_def
  by (subst round_to_normal [where e = "- 4"]) (simp_all add: round_even_def power_int_minus)

lemma round64_four_thirds: "round64 (4 / 3) = Fin (6004799503160661 / 4503599627370496)"
  unfolding round64_def
  by (subst round_to_normal [where e = 0]) (simp_all add: round_even_def power_int_minus)

lemma round64_two_thirds: "round64 (2 / 3) = Fin (6004799503160661 / 9007199254740992)"
  unfolding round64_def
  by (subst round_to_normal [where e = "- 1"]) (simp_all add: round_even_def power_int_minus)

lemma round64_one_third: "round64 (1 / 3) = Fin (6004799503160661 / 18014398509481984)"
  unfolding round64_def
  by (subst round_to_normal [where e = "- 2"]) (simp_all add: round_even_def power_int_minus)

section \<open>Properties of the utilities\<close>

subsection \<open>The RMS meter\<close>







subsection \<open>The resampler at equal rates\<close>

text \<open>
  Claim C4. With equal finite positive rates and a non-empty buffer, \<open>downsample\<close> returns
  the reference it was given, and the store is unchanged: the result is the input buffer
  itself, not a copy of it.
\<close>

theorem downsample_same_rate:
  assumes "deref h sourceBuffer = Some (Float32Array xs)"
    and "xs \<noteq> []"
    and "0 < r"
  shows "downsample h sourceBuffer (Fin r) (Fin r) = Inr (sourceBuffer, h)"
  using assms by (simp add: downsample_def)

theorem downsample_same_rate_witness:
  "downsample [Float32Array [Fin (1 / 2), Fin (- 1 / 4)]] 0 (Fin 48000) (Fin 48000)
     = Inr (0, [Float32Array [Fin (1 / 2), Fin (- 1 / 4)]])"
  using downsample_same_rate [of "[Float32Array [Fin (1 / 2), Fin (- 1 / 4)]]" 0 "[Fin (1 / 2), Fin (- 1 / 4)]" 48000]
  by (simp add: deref_def)

subsection \<open>The PCM16 codec\<close>

lemma Math_round_bounds: "real_of_int (Math_round x) \<le> x + 1 / 2" "x - 1 / 2 < real_of_int (Math_round x)"
  unfolding Math_round_def by linarith+

lemma scale_within_one:
  assumes "- 32768 \<le> v" "v \<le> 32767"
  shows "\<bar>Math_round (max (- 1) (min 1 (real_of_int v / 32768)) * 32767) - v\<bar> \<le> 1"
proof -
  let ?x = "real_of_int v / 32768"
  have lo: "- 1 \<le> ?x" and hi: "?x \<le> 1" using assms by auto
  then have cl: "max (- 1) (min 1 ?x) = ?x" by auto
  have eq: "?x * 32767 = real_of_int v - ?x" by (simp add: field_simps)
  have "real_of_int (Math_round (?x * 32767)) \<le> ?x * 32767 + 1 / 2"
       "?x * 32767 - 1 / 2 < real_of_int (Math_round (?x * 32767))"
    by (rule Math_round_bounds)+
  with eq lo hi have "real_of_int (Math_round (?x * 32767)) < real_of_int v + 2"
    "real_of_int v - 2 < real_of_int (Math_round (?x * 32767))" by linarith+
  then have "Math_round (?x * 32767) < v + 2" "v - 2 < Math_round (?x * 32767)" by linarith+
  then show ?thesis unfolding cl by linarith
qed

lemma scale_in_range:
  "- 32768 \<le> Math_round (max (- 1) (min 1 x) * 32767) \<and> Math_round (max (- 1) (min 1 x) * 32767) \<le> 32767"
proof -
  let ?s = "max (- 1) (min 1 x)"
  have "- 1 \<le> ?s" "?s \<le> 1" by auto
  then have "- 32767 \<le> ?s * 32767" "?s * 32767 \<le> 32767" by auto
  then show ?thesis unfolding Math_round_def by (auto simp: le_floor_iff floor_le_iff)
qed

lemma convert_samples_int16ToFloat:
  assumes "\<forall>v\<in>set vs. - 32768 \<le> v \<and> v \<le> 32767"
  shows "\<exists>ws. convert_samples (map int16ToFloat vs) i = Inr ws \<and> length ws = length vs \<and>
           (\<forall>k<length vs. \<bar>ws ! k - vs ! k\<bar> \<le> 1)"
  using assms
proof (induction vs arbitrary: i)
  case Nil
  then show ?case by simp
next
  case (Cons v vs)
  from Cons.prems have rng: "- 32768 \<le> v" "v \<le> 32767" and rest: "\<forall>v\<in>set vs. - 32768 \<le> v \<and> v \<le> 32767"
    by auto
  from Cons.IH [OF rest, of "i + 1"] obtain ws where
    ws: "convert_samples (map int16ToFloat vs) (i + 1) = Inr ws" "length ws = length vs"
        "\<forall>k<length vs. \<bar>ws ! k - vs ! k\<bar> \<le> 1" by blast
  let ?w = "Math_round (max (- 1) (min 1 (real_of_int v / 32768)) * 32767)"
  have inr: "\<not> (?w < - 32768 \<or> ?w > 32767)" using scale_in_range [of "real_of_int v / 32768"] by linarith
  have step: "convert_samples (map int16ToFloat (v # vs)) i = Inr (?w # ws)"
    using inr ws(1) by (simp add: int16ToFloat_def Let_def)
  have close: "\<bar>?w - v\<bar> \<le> 1" using scale_within_one [OF rng] .
  have "\<forall>k<length (v # vs). \<bar>(?w # ws) ! k - (v # vs) ! k\<bar> \<le> 1"
    using close ws(3) by (auto simp: nth_Cons split: nat.splits)
  with step ws(2) show ?case by auto
qed

text \<open>
  Claim C7. For 16-bit integers \<open>vs\<close>, converting each to a float by \<open>int16ToFloat\<close> and the
  resulting buffer back by \<open>floatToInt16\<close> succeeds, and every value is recovered within
  \<open>\<plusminus>1\<close>.
\<close>

theorem floatToInt16_int16ToFloat_within_one:
  assumes "deref h floatBuffer = Some (Float32Array (map int16ToFloat vs))"
    and "vs \<noteq> []"
    and "\<forall>v\<in>set vs. - 32768 \<le> v \<and> v \<le> 32767"
  shows "\<exists>ws. floatToInt16 h floatBuffer = Inr (length h, h @ [Int16Array ws]) \<and>
           length ws = length vs \<and> (\<forall>k<length vs. \<bar>ws ! k - vs ! k\<bar> \<le> 1)"
proof -
  from convert_samples_int16ToFloat [OF assms(3), of 0] obtain ws where
    ws: "convert_samples (map int16ToFloat vs) 0 = Inr ws" "length ws = length vs"
        "\<forall>k<length vs. \<bar>ws ! k - vs ! k\<bar> \<le> 1" by blast
  have "floatToInt16 h floatBuffer = Inr (length h, h @ [Int16Array ws])"
    using assms(1,2) ws(1) by (simp add: floatToInt16_def new_array_def)
  with ws show ?thesis by blast
qed

theorem floatToInt16_int16ToFloat_witness:
  "\<exists>ws. floatToInt16 [Float32Array (map int16ToFloat [- 32768, 5, 32767])] 0
          = Inr (1, [Float32Array (map int16ToFloat [- 32768, 5, 32767]), Int16Array ws]) \<and>
        \<bar>ws ! 0 - (- 32768)\<bar> \<le> 1 \<and> \<bar>ws ! 1 - 5\<bar> \<le> 1 \<and> \<bar>ws ! 2 - 32767\<bar> \<le> 1"
proof -
  have d: "deref [Float32Array (map int16ToFloat [- 32768, 5, 32767])] 0
           = Some (Float32Array (map int16ToFloat [- 32768, 5, 32767]))"
    by (simp add: deref_def)
  from floatToInt16_int16ToFloat_within_one [OF d] show ?thesis
    by (simp add: All_less_Suc eval_nat_numeral) blast
qed

lemma deref_single: "deref [a] 0 = Some a"
  by (simp add: deref_def)

subsection \<open>The resampler at different rates\<close>

lemma isFinite_iff: "isFinite v \<longleftrightarrow> (\<exists>x. v = Fin x)"
  by (cases v) auto

lemma accumulate_reads_finite:
  "accumulate src nextOffsetSource i accum count = Inr res \<Longrightarrow>
     i \<le> j \<Longrightarrow> j < nextOffsetSource \<Longrightarrow> j < length src \<Longrightarrow> isFinite (src ! j)"
proof (induction src nextOffsetSource i accum count rule: accumulate.induct)
  case (1 src nextOffsetSource i accum count)
  from "1.prems" have inrange: "i < nextOffsetSource \<and> i < length src" by auto
  show ?case
  proof (cases "src ! i")
    case (Fin x)
    with "1.prems"(1) inrange
    have rec: "accumulate src nextOffsetSource (i + 1) (fadd accum (Fin x)) (count + 1) = Inr res"
      by (simp add: accumulate.simps [of src nextOffsetSource i])
    show ?thesis
    proof (cases "j = i")
      case True
      with Fin show ?thesis by simp
    next
      case False
      with "1.prems" have "i + 1 \<le> j" by simp
      from "1.IH" [OF inrange Fin rec this "1.prems"(3,4)] show ?thesis .
    qed
  qed (use "1.prems"(1) inrange in \<open>simp_all add: accumulate.simps [of src nextOffsetSource i]\<close>)
qed

lemma downsample_loop_length:
  "downsample_loop src ratio newLength offsetResult offsetSource = Inr result \<Longrightarrow>
     length result = newLength - offsetResult"
proof (induction src ratio newLength offsetResult offsetSource arbitrary: result
       rule: downsample_loop.induct)
  case (1 src ratio newLength offsetResult offsetSource)
  show ?case
  proof (cases "offsetResult < newLength")
    case True
    let ?next = "source_offset (fmul (Fin (real (offsetResult + 1))) (Fin ratio)) (length src)"
    from "1.prems" True obtain accum count rest where
      acc: "accumulate src ?next offsetSource (Fin 0) 0 = Inr (accum, count)" and
      fin: "\<not> \<not> isFinite (if count = 0 then Fin 0 else to_float32 (fdiv accum (Fin (real count))))" and
      rec: "downsample_loop src ratio newLength (offsetResult + 1) ?next = Inr rest" and
      res: "result = (if count = 0 then Fin 0 else to_float32 (fdiv accum (Fin (real count)))) # rest"
      by (auto simp: downsample_loop.simps [of src ratio newLength offsetResult] Let_def
               split: sum.splits if_splits)
    from "1.IH" [OF True refl acc refl refl fin rec] have "length rest = newLength - (offsetResult + 1)" .
    with res True show ?thesis by simp
  next
    case False
    with "1.prems" show ?thesis by (simp add: downsample_loop.simps [of src ratio newLength offsetResult])
  qed
qed

lemma downsample_loop_finite:
  "downsample_loop src ratio newLength offsetResult offsetSource = Inr result \<Longrightarrow>
     \<forall>v\<in>set result. isFinite v"
proof (induction src ratio newLength offsetResult offsetSource arbitrary: result
       rule: downsample_loop.induct)
  case (1 src ratio newLength offsetResult offsetSource)
  show ?case
  proof (cases "offsetResult < newLength")
    case True
    let ?next = "source_offset (fmul (Fin (real (offsetResult + 1))) (Fin ratio)) (length src)"
    from "1.prems" True obtain accum count rest where
      acc: "accumulate src ?next offsetSource (Fin 0) 0 = Inr (accum, count)" and
      fin: "\<not> \<not> isFinite (if count = 0 then Fin 0 else to_float32 (fdiv accum (Fin (real count))))" and
      rec: "downsample_loop src ratio newLength (offsetResult + 1) ?next = Inr rest" and
      res: "result = (if count = 0 then Fin 0 else to_float32 (fdiv accum (Fin (real count)))) # rest"
      by (auto simp: downsample_loop.simps [of src ratio newLength offsetResult] Let_def
               split: sum.splits if_splits)
    from "1.IH" [OF True refl acc refl refl fin rec] have "\<forall>v\<in>set rest. isFinite v" .
    with res fin show ?thesis by simp
  next
    case False
    with "1.prems" show ?thesis by (simp add: downsample_loop.simps [of src ratio newLength offsetResult])
  qed
qed

lemma downsample_loop_reads_finite:
  "downsample_loop src ratio newLength offsetResult offsetSource = Inr result \<Longrightarrow>
     offsetResult < newLength \<Longrightarrow>
     offsetSource \<le> j \<Longrightarrow>
     j < source_offset (fmul (Fin (real newLength)) (Fin ratio)) (length src) \<Longrightarrow>
     j < length src \<Longrightarrow>
     isFinite (src ! j)"
proof (induction src ratio newLength offsetResult offsetSource arbitrary: result
       rule: downsample_loop.induct)
  case (1 src ratio newLength offsetResult offsetSource)
  let ?next = "source_offset (fmul (Fin (real (offsetResult + 1))) (Fin ratio)) (length src)"
  from "1.prems"(1,2) obtain accum count rest where
    acc: "accumulate src ?next offsetSource (Fin 0) 0 = Inr (accum, count)" and
    fin: "\<not> \<not> isFinite (if count = 0 then Fin 0 else to_float32 (fdiv accum (Fin (real count))))" and
    rec: "downsample_loop src ratio newLength (offsetResult + 1) ?next = Inr rest"
    by (auto simp: downsample_loop.simps [of src ratio newLength offsetResult] Let_def
             split: sum.splits if_splits)
  show ?case
  proof (cases "j < ?next")
    case True
    from accumulate_reads_finite [OF acc "1.prems"(3) True "1.prems"(5)] show ?thesis .
  next
    case False
    then have le: "?next \<le> j" by simp
    have more: "offsetResult + 1 < newLength"
    proof (rule ccontr)
      assume "\<not> offsetResult + 1 < newLength"
      with "1.prems"(2) have "offsetResult + 1 = newLength" by simp
      with False "1.prems"(4) show False by (simp only: simp_thms)
    qed
    from "1.IH" [OF "1.prems"(2) refl acc refl refl fin rec more le "1.prems"(4,5)]
    show ?thesis .
  qed
qed

lemma representable_bound64:
  assumes "n < 2 ^ 53"
  shows "nearest 53 (- 1022) (real n * 2 ^ 127) = real n * 2 ^ 127"
proof -
  have "\<bar>int n\<bar> < 2 ^ 53" using assms by (simp add: nat_less_iff flip: of_nat_power)
  from nearest_exact [of "int n" 53 "- 1022" 127, OF this] show ?thesis by simp
qed

lemma representable_top64: "nearest 53 (- 1022) (2 ^ 127) = 2 ^ 127"
  using representable_bound64 [of 1] by simp

lemma representable_top32: "nearest 24 (- 126) (2 ^ 127) = 2 ^ 127"
  using nearest_exact [of 1 24 "- 126" 127] by simp

lemma fadd_bounded:
  assumes "\<bar>a\<bar> \<le> real c * 2 ^ 127" "\<bar>x\<bar> \<le> 2 ^ 127" "c + 1 < 2 ^ 53"
  shows "\<exists>a'. fadd (Fin a) (Fin x) = Fin a' \<and> \<bar>a'\<bar> \<le> real (c + 1) * 2 ^ 127"
proof -
  have b: "\<bar>a + x\<bar> \<le> real (c + 1) * 2 ^ 127" using assms(1,2) by (simp add: algebra_simps)
  have "real (c + 1) < 2 ^ 53" using assms(3) by (metis of_nat_less_iff of_nat_numeral of_nat_power)
  then have "real (c + 1) * 2 ^ 127 < 2 ^ 53 * 2 ^ 127" by (simp del: of_nat_add of_nat_Suc)
  also have "\<dots> < (2::real) powi (1023 + 1)" by simp
  finally have lt: "real (c + 1) * 2 ^ 127 < 2 powi (1023 + 1)" .
  from round_to_bounded [OF b representable_bound64 [OF assms(3)] lt]
  show ?thesis by (simp add: round64_def)
qed

lemma mean_bounded:
  assumes "\<bar>a\<bar> \<le> real c * 2 ^ 127" "0 < c"
  shows "\<exists>m. to_float32 (fdiv (Fin a) (Fin (real c))) = Fin m \<and> \<bar>m\<bar> \<le> 2 ^ 127"
proof -
  have "\<bar>a / real c\<bar> \<le> 2 ^ 127" using assms by (simp add: field_simps)
  from round_to_bounded [OF this representable_top64, of 1023] obtain y where
    y: "round64 (a / real c) = Fin y" "\<bar>y\<bar> \<le> 2 ^ 127" by (auto simp: round64_def)
  from round_to_bounded [OF y(2) representable_top32, of 127] obtain m where
    m: "round32 y = Fin m" "\<bar>m\<bar> \<le> 2 ^ 127" by (auto simp: round32_def)
  from y(1) m assms(2) show ?thesis by simp
qed

lemma accumulate_bounded:
  assumes "\<forall>v\<in>set src. bounded_sample v" "length src < 2 ^ 53"
    and "accum = Fin a" "\<bar>a\<bar> \<le> real count * 2 ^ 127" "count \<le> i"
  shows "\<exists>a' count'. accumulate src nextOffsetSource i accum count = Inr (Fin a', count') \<and>
           \<bar>a'\<bar> \<le> real count' * 2 ^ 127"
  using assms
proof (induction src nextOffsetSource i accum count arbitrary: a rule: accumulate.induct)
  case (1 src nextOffsetSource i accum count)
  show ?case
  proof (cases "i < nextOffsetSource \<and> i < length src")
    case True
    with "1.prems"(1) have "bounded_sample (src ! i)" by simp
    then obtain x where x: "src ! i = Fin x" "\<bar>x\<bar> \<le> 2 ^ 127"
      by (auto simp: bounded_sample_def split: number.splits)
    have c: "count + 1 < 2 ^ 53" using True "1.prems"(2,5) by simp
    from fadd_bounded [OF "1.prems"(4) x(2) c] obtain a1 where
      a1: "fadd (Fin a) (Fin x) = Fin a1" "\<bar>a1\<bar> \<le> real (count + 1) * 2 ^ 127" by blast
    have a1': "fadd accum (Fin x) = Fin a1" using a1(1) "1.prems"(3) by simp
    have le: "count + 1 \<le> i + 1" using "1.prems"(5) by simp
    from "1.IH" [OF True x(1) "1.prems"(1,2) a1' a1(2) le] obtain a' count' where
      "accumulate src nextOffsetSource (i + 1) (fadd accum (Fin x)) (count + 1) = Inr (Fin a', count')"
      "\<bar>a'\<bar> \<le> real count' * 2 ^ 127" by blast
    with True x(1) show ?thesis by (simp add: accumulate.simps [of src nextOffsetSource i])
  next
    case False
    with "1.prems"(3,4) show ?thesis by (auto simp: accumulate.simps [of src nextOffsetSource i])
  qed
qed

lemma downsample_loop_bounded:
  assumes "\<forall>v\<in>set src. bounded_sample v" "length src < 2 ^ 53"
  shows "\<exists>result. downsample_loop src ratio newLength offsetResult offsetSource = Inr result"
  using assms
proof (induction src ratio newLength offsetResult offsetSource rule: downsample_loop.induct)
  case (1 src ratio newLength offsetResult offsetSource)
  show ?case
  proof (cases "offsetResult < newLength")
    case True
    let ?next = "source_offset (fmul (Fin (real (offsetResult + 1))) (Fin ratio)) (length src)"
    from accumulate_bounded [OF "1.prems" refl, where a = 0 and count = 0 and i = offsetSource
        and nextOffsetSource = ?next] obtain a count where
      acc: "accumulate src ?next offsetSource (Fin 0) 0 = Inr (Fin a, count)"
      and a: "\<bar>a\<bar> \<le> real count * 2 ^ 127" by auto
    let ?mean = "if count = 0 then Fin 0 else to_float32 (fdiv (Fin a) (Fin (real count)))"
    have fin: "\<not> \<not> isFinite ?mean"
    proof (cases "count = 0")
      case False
      with mean_bounded [OF a] show ?thesis by auto
    qed simp
    from "1.IH" [OF True refl acc refl refl fin "1.prems"] obtain rest where
      "downsample_loop src ratio newLength (offsetResult + 1) ?next = Inr rest" by blast
    with True acc fin show ?thesis
      by (simp add: downsample_loop.simps [of src ratio newLength offsetResult] Let_def)
  next
    case False
    then show ?thesis by (simp add: downsample_loop.simps [of src ratio newLength offsetResult])
  qed
qed

lemma accumulate_zeros:
  assumes "\<forall>v\<in>set src. v = Fin 0"
  shows "\<exists>count'. accumulate src nextOffsetSource i (Fin 0) count = Inr (Fin 0, count')"
  using assms
proof (induction src nextOffsetSource i "Fin 0" count rule: accumulate.induct)
  case (1 src nextOffsetSource i count)
  show ?case
  proof (cases "i < nextOffsetSource \<and> i < length src")
    case True
    with "1.prems" have x: "src ! i = Fin 0" by simp
    have z: "fadd (Fin 0) (Fin 0) = Fin 0" by simp
    from "1.hyps" [OF True x] z "1.prems" obtain count' where
      "accumulate src nextOffsetSource (i + 1) (Fin 0) (count + 1) = Inr (Fin 0, count')" by auto
    with True x show ?thesis by (simp add: accumulate.simps [of src nextOffsetSource i])
  next
    case False
    then show ?thesis by (auto simp: accumulate.simps [of src nextOffsetSource i])
  qed
qed

lemma downsample_loop_zeros:
  assumes "\<forall>v\<in>set src. v = Fin 0"
  shows "downsample_loop src ratio newLength offsetResult offsetSource
           = Inr (replicate (newLength - offsetResult) (Fin 0))"
  using assms
proof (induction src ratio newLength offsetResult offsetSource rule: downsample_loop.induct)
  case (1 src ratio newLength offsetResult offsetSource)
  show ?case
  proof (cases "offsetResult < newLength")
    case True
    let ?next = "source_offset (fmul (Fin (real (offsetResult + 1))) (Fin ratio)) (length src)"
    from accumulate_zeros [OF "1.prems", of ?next offsetSource 0] obtain count where
      acc: "accumulate src ?next offsetSource (Fin 0) 0 = Inr (Fin 0, count)" by blast
    have mean: "(if count = 0 then Fin 0 else to_float32 (fdiv (Fin 0) (Fin (real count)))) = Fin 0"
      by simp
    then have fin: "\<not> \<not> isFinite (if count = 0 then Fin 0 else to_float32 (fdiv (Fin 0) (Fin (real count))))"
      by (simp only: isFinite.simps simp_thms)
    from "1.IH" [OF True refl acc refl refl fin "1.prems"]
    have rec: "downsample_loop src ratio newLength (offsetResult + 1) ?next
                 = Inr (replicate (newLength - (offsetResult + 1)) (Fin 0))" .
    have "newLength - offsetResult = Suc (newLength - (offsetResult + 1))" using True by simp
    then have "replicate (newLength - offsetResult) (Fin 0)
                 = Fin 0 # replicate (newLength - (offsetResult + 1)) (Fin 0)" by simp
    with True acc rec mean show ?thesis
      by (simp add: downsample_loop.simps [of src ratio newLength offsetResult] Let_def)
  next
    case False
    then show ?thesis by (simp add: downsample_loop.simps [of src ratio newLength offsetResult])
  qed
qed

text \<open>Downsampling does not lengthen a buffer.\<close>

lemma newLength_le_length:
  assumes "0 < t" "t < s" "fdiv (Fin s) (Fin t) = Fin ratio"
    and "fdiv (Fin (real n)) (Fin ratio) = Fin q" "n < 2 ^ 53"
  shows "1 \<le> ratio" "Math_round q \<le> int n"
proof -
  have st: "round64 (s / t) = Fin ratio" using assms(1,3) by simp
  have "1 \<le> s / t" using assms(1,2) by simp
  from round64_ge [OF st this] representable_nat64 [of 1] show r: "1 \<le> ratio" by simp
  then have q: "round64 (real n / ratio) = Fin q" using assms(4) by simp
  have "real n * 1 \<le> real n * ratio" using r by (intro mult_left_mono) simp_all
  then have "real n / ratio \<le> real n" using r by (simp add: field_simps)
  from round64_le [OF q this representable_nat64 [OF assms(5)]] have "q \<le> real n" .
  from Math_round_mono [OF this] show "Math_round q \<le> int n" by simp
qed

lemma bounded_sample_finite: "bounded_sample v \<Longrightarrow> isFinite v"
  by (cases v) (simp_all add: bounded_sample_def)

lemma downsample_differing:
  assumes "deref h p = Some (Float32Array xs)" "xs \<noteq> []" "0 < s" "0 < t" "s \<noteq> t"
  shows "downsample h p (Fin s) (Fin t) =
     (case downsample_body xs s t of
        Inl e \<Rightarrow> Inl e
      | Inr result \<Rightarrow> Inr (length h, h @ [Float32Array result]))"
  using assms by (simp add: downsample_def new_array_def split: sum.splits)

lemma downsample_body_reached:
  assumes "fdiv (Fin s) (Fin t) = Fin ratio" "0 < ratio"
    and "fdiv (Fin (real (length xs))) (Fin ratio) = Fin q"
  shows "downsample_body xs s t =
     (if Math_round q \<le> 0 then Inl (InvalidNewLength (Fin (of_int (Math_round q))))
      else if max_array_length < Math_round q then Inl (InvalidTypedArrayLength (Math_round q))
      else downsample_loop xs ratio (nat (Math_round q)) 0 0)"
proof -
  have r: "\<not> ratio \<le> 0" using assms(2) by simp
  show ?thesis
    unfolding downsample_body_def Let_def assms(1) number.case if_not_P [OF r] assms(3) ..
qed

lemma downsample_body_Inr:
  assumes "downsample_body xs s t = Inr ys"
  shows "\<exists>ratio q. fdiv (Fin s) (Fin t) = Fin ratio \<and> 0 < ratio \<and>
           fdiv (Fin (real (length xs))) (Fin ratio) = Fin q \<and>
           0 < Math_round q \<and> Math_round q \<le> max_array_length \<and>
           downsample_loop xs ratio (nat (Math_round q)) 0 0 = Inr ys"
proof (cases "fdiv (Fin s) (Fin t)")
  case (Fin ratio)
  note r = Fin
  show ?thesis
  proof (cases "ratio \<le> 0")
    case True
    with assms r show ?thesis by (simp add: downsample_body_def)
  next
    case False
    show ?thesis
    proof (cases "fdiv (Fin (real (length xs))) (Fin ratio)")
      case (Fin q)
      from False have pos: "0 < ratio" by simp
      from assms show ?thesis
        unfolding downsample_body_reached [OF r pos Fin]
        using r pos Fin by (auto split: if_splits)
    qed (use assms r False in \<open>simp_all add: downsample_body_def\<close>)
  qed
qed (use assms in \<open>simp_all add: downsample_body_def\<close>)

lemma downsample_body_length:
  assumes "downsample_body xs s t = Inr ys"
  shows "ys \<noteq> []" and "\<forall>v\<in>set ys. isFinite v"
proof -
  from downsample_body_Inr [OF assms] obtain ratio q where
    l: "0 < Math_round q" "downsample_loop xs ratio (nat (Math_round q)) 0 0 = Inr ys" by blast
  from downsample_loop_length [OF l(2)] l(1) show "ys \<noteq> []" by auto
  from downsample_loop_finite [OF l(2)] show "\<forall>v\<in>set ys. isFinite v" .
qed

text \<open>
  Claim C3, amended. For a non-empty buffer and finite positive rates that differ, let
  \<open>ratio\<close> be the double \<open>sourceRate / targetRate\<close>, finite and positive, and \<open>q\<close> the double
  \<open>length / ratio\<close>. Whenever \<open>downsample\<close> returns, it returns a new array of
  \<open>Math.round(q)\<close> samples. It does return when the target rate is the lower one,
  \<open>Math.round(q)\<close> is at least 1 and every sample is finite and of magnitude at most
  \<open>2^127\<close>; when \<open>Math.round(q)\<close> is 0 it fails with \<open>Invalid newLength\<close>. A lower target rate
  gives no more samples than there were. From 48000 to 16000 the ratio is 3 and the length
  is that of the exact third, rounded.
\<close>

theorem downsample_length:
  assumes "deref h sourceBuffer = Some (Float32Array xs)"
    and "xs \<noteq> []" and "int (length xs) \<le> max_array_length"
    and "0 < s" and "0 < t" and "s \<noteq> t"
    and "fdiv (Fin s) (Fin t) = Fin ratio" and "0 < ratio"
    and "fdiv (Fin (real (length xs))) (Fin ratio) = Fin q"
  shows "(\<forall>r h'. downsample h sourceBuffer (Fin s) (Fin t) = Inr (r, h') \<longrightarrow>
            (\<exists>ys. r = length h \<and> h' = h @ [Float32Array ys] \<and> int (length ys) = Math_round q)) \<and>
         (t < s \<and> 1 \<le> Math_round q \<and> (\<forall>v\<in>set xs. bounded_sample v) \<longrightarrow>
            (\<exists>ys. downsample h sourceBuffer (Fin s) (Fin t) = Inr (length h, h @ [Float32Array ys]) \<and>
                  int (length ys) = Math_round q)) \<and>
         (Math_round q \<le> 0 \<longrightarrow>
            downsample h sourceBuffer (Fin s) (Fin t)
              = Inl (InvalidNewLength (Fin (of_int (Math_round q))))) \<and>
         (t < s \<longrightarrow> Math_round q \<le> int (length xs)) \<and>
         (s = 48000 \<and> t = 16000 \<and> length xs < 2 ^ 31 \<longrightarrow>
            ratio = 3 \<and> Math_round q = Math_round (real (length xs) / 3))"
proof (intro conjI allI impI)
  note d = downsample_differing [OF assms(1,2,4,5,6)]
  note b = downsample_body_reached [OF assms(7,8,9)]
  have len: "length xs < 2 ^ 53" using assms(3) by (simp add: max_array_length_def)
  {
    fix r h' assume "downsample h sourceBuffer (Fin s) (Fin t) = Inr (r, h')"
    then obtain ys where ys: "downsample_loop xs ratio (nat (Math_round q)) 0 0 = Inr ys"
      "0 < Math_round q" "r = length h" "h' = h @ [Float32Array ys]"
      unfolding d b by (auto split: if_splits sum.splits)
    from downsample_loop_length [OF ys(1)] ys(2) have "int (length ys) = Math_round q" by simp
    with ys(3,4)
    show "\<exists>ys. r = length h \<and> h' = h @ [Float32Array ys] \<and> int (length ys) = Math_round q"
      by blast
  }
  {
    assume a: "t < s \<and> 1 \<le> Math_round q \<and> (\<forall>v\<in>set xs. bounded_sample v)"
    then have bs: "\<forall>v\<in>set xs. bounded_sample v" and ts: "t < s" by blast+
    from newLength_le_length(2) [OF assms(5) ts assms(7,9) len] assms(3)
    have lim: "Math_round q \<le> max_array_length" by simp
    from downsample_loop_bounded [OF bs len, of ratio "nat (Math_round q)" 0 0] obtain ys where
      ys: "downsample_loop xs ratio (nat (Math_round q)) 0 0 = Inr ys" by blast
    from downsample_loop_length [OF ys] a have l: "int (length ys) = Math_round q" by simp
    have "downsample h sourceBuffer (Fin s) (Fin t) = Inr (length h, h @ [Float32Array ys])"
      unfolding d b using a lim ys by simp
    with l
    show "\<exists>ys. downsample h sourceBuffer (Fin s) (Fin t) = Inr (length h, h @ [Float32Array ys]) \<and>
            int (length ys) = Math_round q"
      by blast
  }
  {
    assume "Math_round q \<le> 0"
    then show "downsample h sourceBuffer (Fin s) (Fin t)
                 = Inl (InvalidNewLength (Fin (of_int (Math_round q))))"
      unfolding d b by simp
  }
  {
    assume "t < s"
    from newLength_le_length(2) [OF assms(5) this assms(7,9) len]
    show "Math_round q \<le> int (length xs)" .
  }
  {
    assume a: "s = 48000 \<and> t = 16000 \<and> length xs < 2 ^ 31"
    with assms(7) have "round64 3 = Fin ratio" by simp
    then show r: "ratio = 3" by (simp add: round64_examples)
    with assms(9) have "round64 (real (length xs) / 3) = Fin q" by simp
    from third_rounds_alike [OF this] a
    show "Math_round q = Math_round (real (length xs) / 3)" by simp
  }
qed

theorem downsample_length_witness:
  "\<exists>ys. downsample [Float32Array [Fin 3, Fin 0, Fin 0, Fin 1, Fin 1, Fin 4]] 0 (Fin 48000) (Fin 16000)
          = Inr (1, [Float32Array [Fin 3, Fin 0, Fin 0, Fin 1, Fin 1, Fin 4], Float32Array ys]) \<and>
        length ys = 2"
proof -
  have d: "deref [Float32Array [Fin 3, Fin 0, Fin 0, Fin 1, Fin 1, Fin 4]] 0
             = Some (Float32Array [Fin 3, Fin 0, Fin 0, Fin 1, Fin 1, Fin 4])"
    by (simp add: deref_def)
  have ratio: "fdiv (Fin 48000) (Fin 16000) = Fin 3" by (simp add: round64_examples)
  have q: "fdiv (Fin (real (length [Fin 3, Fin 0, Fin 0, Fin 1, Fin 1, Fin 4]))) (Fin 3) = Fin 2"
    by (simp add: round64_numeral)
  have r: "Math_round 2 = 2" by (simp add: Math_round_def)
  from downsample_length [OF d _ _ _ _ _ ratio _ q, THEN conjunct2, THEN conjunct1]
  show ?thesis
    unfolding r by (simp add: max_array_length_def bounded_sample_def)
qed

text \<open>
  One sample at 48000 Hz gives no sample at 16000 Hz, and \<open>downsample\<close> throws rather than
  return an empty array; a sample that is not finite makes it throw as well. For 240
  samples from 48000 Hz to 44100 Hz the double quotient \<open>240 / (48000 / 44100)\<close> lies just
  below 220.5: the result has 220 samples, while \<open>240 * 44100 / 48000\<close> is 220.5 and rounds
  to 221.
\<close>

theorem downsample_length_counterexample:
  "downsample [Float32Array [Fin 0]] 0 (Fin 48000) (Fin 16000) = Inl (InvalidNewLength (Fin 0)) \<and>
   downsample [Float32Array [NaN, Fin 0, Fin 0]] 0 (Fin 48000) (Fin 16000) = Inl (InvalidValue 0) \<and>
   downsample [Float32Array (replicate 240 (Fin 0))] 0 (Fin 48000) (Fin 44100)
     = Inr (1, [Float32Array (replicate 240 (Fin 0)), Float32Array (replicate 220 (Fin 0))]) \<and>
   Math_round (240 * 44100 / 48000) = 221"
proof (intro conjI)
  have ratio: "fdiv (Fin 48000) (Fin 16000) = Fin 3" by (simp add: round64_examples)
  have q1: "fdiv (Fin (real (length [Fin 0]))) (Fin 3) = Fin (6004799503160661 / 18014398509481984)"
    by (simp add: round64_one_third)
  show "downsample [Float32Array [Fin 0]] 0 (Fin 48000) (Fin 16000) = Inl (InvalidNewLength (Fin 0))"
    by (simp add: downsample_differing [OF deref_single] downsample_body_reached [OF ratio _ q1]
          Math_round_def)
  have q3: "fdiv (Fin (real (length [NaN, Fin 0, Fin 0]))) (Fin 3) = Fin 1" by simp
  show "downsample [Float32Array [NaN, Fin 0, Fin 0]] 0 (Fin 48000) (Fin 16000) = Inl (InvalidValue 0)"
    by (simp add: downsample_differing [OF deref_single] downsample_body_reached [OF ratio _ q3]
          Math_round_def max_array_length_def downsample_loop.simps accumulate.simps
          round64_examples)
  note r2 = quotient_48000_44100
  have q2: "fdiv (Fin (real (length (replicate 240 (Fin 0)))))
              (Fin (4901877145437275 / 4503599627370496))
            = Fin (7758154045587455 / 35184372088832)"
    unfolding length_replicate of_nat_numeral by (rule quotient_240)
  have n: "Math_round (7758154045587455 / 35184372088832) = 220" by (simp add: Math_round_def)
  have z: "\<forall>v\<in>set (replicate 240 (Fin 0)). v = Fin 0" by simp
  show "downsample [Float32Array (replicate 240 (Fin 0))] 0 (Fin 48000) (Fin 44100)
     = Inr (1, [Float32Array (replicate 240 (Fin 0)), Float32Array (replicate 220 (Fin 0))])"
    unfolding downsample_differing [OF deref_single, of "replicate 240 (Fin 0)" 48000 44100, simplified]
      downsample_body_reached [OF r2 _ q2, simplified] n downsample_loop_zeros [OF z]
    by (simp add: max_array_length_def)
  show "Math_round (240 * 44100 / 48000) = 221" by (simp add: Math_round_def)
qed

subsection \<open>Invalid input\<close>

lemma sum_squares_rejects:
  "\<exists>v\<in>set xs. \<not> isFinite v \<Longrightarrow> \<exists>e. sum_squares xs i acc = Inl e"
  by (induction xs i acc rule: sum_squares.induct) auto

lemma convert_samples_rejects:
  "\<exists>v\<in>set xs. \<not> isFinite v \<Longrightarrow> \<exists>e. convert_samples xs i = Inl e"
proof (induction xs arbitrary: i)
  case Nil
  then show ?case by simp
next
  case (Cons v xs)
  show ?case
  proof (cases v)
    case (Fin x)
    with Cons.prems have "\<exists>v\<in>set xs. \<not> isFinite v" by simp
    from Cons.IH [OF this, of "i + 1"] obtain e where "convert_samples xs (i + 1) = Inl e" by blast
    with Fin show ?thesis by (simp add: Let_def)
  qed simp_all
qed

text \<open>
  Claim C5, amended. \<open>calculateRMS\<close> and \<open>floatToInt16\<close> fail on an empty buffer and on any
  non-finite sample. \<open>downsample\<close> fails on an empty buffer and on a rate that is not finite
  and positive; when the rates differ it fails on a non-finite sample among those it
  averages, the samples below the end of the last window,
  \<open>Math.round(newLength * ratio)\<close> in double arithmetic; with equal rates it returns its
  input without looking at the samples. The \<open>calculateRMS\<close> of the loopback main process
  does not fail: it returns 0 for a missing or empty buffer.
\<close>

theorem invalid_input_rejected:
  assumes "deref h buffer = Some (Float32Array xs)"
  shows "(xs = [] \<or> (\<exists>v\<in>set xs. \<not> isFinite v) \<longrightarrow>
            (\<exists>e. calculateRMS h buffer = Inl e) \<and> (\<exists>e. floatToInt16 h buffer = Inl e)) \<and>
         (xs = [] \<or> \<not> valid_rate sourceRate \<or> \<not> valid_rate targetRate \<longrightarrow>
            (\<exists>e. downsample h buffer sourceRate targetRate = Inl e)) \<and>
         (\<forall>s t ratio q j. sourceRate = Fin s \<and> targetRate = Fin t \<and> 0 < s \<and> 0 < t \<and> s \<noteq> t \<and>
            fdiv (Fin s) (Fin t) = Fin ratio \<and>
            fdiv (Fin (real (length xs))) (Fin ratio) = Fin q \<and>
            j < length xs \<and>
            j < source_offset (fmul (Fin (real (nat (Math_round q)))) (Fin ratio)) (length xs) \<and>
            \<not> isFinite (xs ! j) \<longrightarrow>
            (\<exists>e. downsample h buffer sourceRate targetRate = Inl e)) \<and>
         (xs \<noteq> [] \<and> valid_rate sourceRate \<longrightarrow>
            downsample h buffer sourceRate sourceRate = Inr (buffer, h)) \<and>
         calculateRMS_loopback None = 0 \<and> calculateRMS_loopback (Some []) = 0"
proof (intro conjI impI allI)
  assume bad: "xs = [] \<or> (\<exists>v\<in>set xs. \<not> isFinite v)"
  show "\<exists>e. calculateRMS h buffer = Inl e"
  proof (cases "xs = []")
    case True
    with assms show ?thesis by (simp add: calculateRMS_def)
  next
    case False
    with bad sum_squares_rejects [of xs 0 0] obtain e where "sum_squares xs 0 0 = Inl e" by blast
    with assms False show ?thesis by (simp add: calculateRMS_def)
  qed
  show "\<exists>e. floatToInt16 h buffer = Inl e"
  proof (cases "xs = []")
    case True
    with assms show ?thesis by (simp add: floatToInt16_def)
  next
    case False
    with bad convert_samples_rejects [of xs 0] obtain e where "convert_samples xs 0 = Inl e" by blast
    with assms False show ?thesis by (simp add: floatToInt16_def)
  qed
next
  assume "xs = [] \<or> \<not> valid_rate sourceRate \<or> \<not> valid_rate targetRate"
  with assms show "\<exists>e. downsample h buffer sourceRate targetRate = Inl e"
    by (auto simp: downsample_def valid_rate_def split: number.splits)
next
  fix s t ratio q j
  assume a: "sourceRate = Fin s \<and> targetRate = Fin t \<and> 0 < s \<and> 0 < t \<and> s \<noteq> t \<and>
            fdiv (Fin s) (Fin t) = Fin ratio \<and>
            fdiv (Fin (real (length xs))) (Fin ratio) = Fin q \<and>
            j < length xs \<and>
            j < source_offset (fmul (Fin (real (nat (Math_round q)))) (Fin ratio)) (length xs) \<and>
            \<not> isFinite (xs ! j)"
  then have ne: "xs \<noteq> []" by auto
  from a have d: "downsample h buffer sourceRate targetRate =
     (case downsample_body xs s t of
        Inl e \<Rightarrow> Inl e
      | Inr result \<Rightarrow> Inr (length h, h @ [Float32Array result]))"
    using downsample_differing [OF assms ne, of s t] by simp
  show "\<exists>e. downsample h buffer sourceRate targetRate = Inl e"
  proof (cases "downsample_body xs s t")
    case (Inl e)
    then show ?thesis unfolding d by simp
  next
    case (Inr ys)
    from downsample_body_Inr [OF Inr] a obtain l:
      "0 < Math_round q" "downsample_loop xs ratio (nat (Math_round q)) 0 0 = Inr ys"
      by auto
    from l(1) have "0 < nat (Math_round q)" by simp
    from downsample_loop_reads_finite [OF l(2) this, of j] a have "isFinite (xs ! j)" by simp
    with a show ?thesis by simp
  qed
next
  assume "xs \<noteq> [] \<and> valid_rate sourceRate"
  with assms show "downsample h buffer sourceRate sourceRate = Inr (buffer, h)"
    by (auto simp: downsample_def valid_rate_def split: number.splits)
qed (simp_all add: calculateRMS_loopback_def)

theorem invalid_input_rejected_witness:
  "(\<exists>e. calculateRMS [Float32Array [Fin 0, NaN]] 0 = Inl e) \<and>
   (\<exists>e. floatToInt16 [Float32Array [Fin 0, NaN]] 0 = Inl e) \<and>
   (\<exists>e. downsample [Float32Array [Fin 0, NaN]] 0 (Fin 48000) (Fin 0) = Inl e) \<and>
   (\<exists>e. downsample [Float32Array [Fin 0, NaN]] 0 (Fin 48000) (Fin 16000) = Inl e) \<and>
   downsample [Float32Array [Fin 0, NaN]] 0 (Fin 48000) (Fin 48000)
     = Inr (0, [Float32Array [Fin 0, NaN]])"
proof -
  have d: "deref [Float32Array [Fin 0, NaN]] 0 = Some (Float32Array [Fin 0, NaN])"
    by (simp add: deref_def)
  have ratio: "fdiv (Fin 48000) (Fin 16000) = Fin 3" by (simp add: round64_examples)
  have q: "fdiv (Fin (real (length [Fin 0, NaN]))) (Fin 3)
             = Fin (6004799503160661 / 9007199254740992)"
    by (simp add: round64_two_thirds)
  have r: "source_offset
             (fmul (Fin (real (nat (Math_round (6004799503160661 / 9007199254740992))))) (Fin 3))
             (length [Fin 0, NaN]) = 3"
    by (simp add: Math_round_def round64_examples)
  from invalid_input_rejected [OF d, of "Fin 48000" "Fin 0"]
  have 1: "(\<exists>e. calculateRMS [Float32Array [Fin 0, NaN]] 0 = Inl e) \<and>
           (\<exists>e. floatToInt16 [Float32Array [Fin 0, NaN]] 0 = Inl e) \<and>
           (\<exists>e. downsample [Float32Array [Fin 0, NaN]] 0 (Fin 48000) (Fin 0) = Inl e)"
    by (simp add: valid_rate_def)
  from invalid_input_rejected [OF d, of "Fin 48000" "Fin 16000"]
  have "\<forall>s t ratio q j. Fin 48000 = Fin s \<and> Fin 16000 = Fin t \<and> 0 < s \<and> 0 < t \<and> s \<noteq> t \<and>
            fdiv (Fin s) (Fin t) = Fin ratio \<and>
            fdiv (Fin (real (length [Fin 0, NaN]))) (Fin ratio) = Fin q \<and>
            j < length [Fin 0, NaN] \<and>
            j < source_offset (fmul (Fin (real (nat (Math_round q)))) (Fin ratio)) (length [Fin 0, NaN]) \<and>
            \<not> isFinite ([Fin 0, NaN] ! j) \<longrightarrow>
            (\<exists>e. downsample [Float32Array [Fin 0, NaN]] 0 (Fin 48000) (Fin 16000) = Inl e)"
    by blast
  from this [rule_format, of 48000 16000 3 "6004799503160661 / 9007199254740992" 1]
  have 2: "\<exists>e. downsample [Float32Array [Fin 0, NaN]] 0 (Fin 48000) (Fin 16000) = Inl e"
    unfolding r ratio q by simp
  from invalid_input_rejected [OF d, of "Fin 48000" "Fin 0"]
  have 3: "downsample [Float32Array [Fin 0, NaN]] 0 (Fin 48000) (Fin 48000)
     = Inr (0, [Float32Array [Fin 0, NaN]])"
    by (simp add: valid_rate_def)
  from 1 2 3 show ?thesis by blast
qed

text \<open>
  At equal rates a \<open>NaN\<close> comes back as it went in. At 48000 Hz to 16000 Hz, four samples
  give one, the mean of the first three: the fourth is never read, so \<open>downsample\<close> returns
  normally although it is \<open>NaN\<close>. The loopback \<open>calculateRMS\<close> answers 0 to an empty buffer.
\<close>

theorem invalid_input_counterexample:
  "downsample [Float32Array [NaN]] 0 (Fin 16000) (Fin 16000) = Inr (0, [Float32Array [NaN]]) \<and>
   downsample [Float32Array [Fin 3, Fin 0, Fin 0, NaN]] 0 (Fin 48000) (Fin 16000)
     = Inr (1, [Float32Array [Fin 3, Fin 0, Fin 0, NaN], Float32Array [Fin 1]]) \<and>
   calculateRMS_loopback (Some []) = 0"
proof (intro conjI)
  show "downsample [Float32Array [NaN]] 0 (Fin 16000) (Fin 16000) = Inr (0, [Float32Array [NaN]])"
    by (simp add: downsample_def deref_def)
  have ratio: "fdiv (Fin 48000) (Fin 16000) = Fin 3" by (simp add: round64_examples)
  have q: "fdiv (Fin (real (length [Fin 3, Fin 0, Fin 0, NaN]))) (Fin 3)
             = Fin (6004799503160661 / 4503599627370496)"
    by (simp add: round64_four_thirds)
  show "downsample [Float32Array [Fin 3, Fin 0, Fin 0, NaN]] 0 (Fin 48000) (Fin 16000)
     = Inr (1, [Float32Array [Fin 3, Fin 0, Fin 0, NaN], Float32Array [Fin 1]])"
    by (simp add: downsample_differing [OF deref_single] downsample_body_reached [OF ratio _ q]
          Math_round_def max_array_length_def downsample_loop.simps accumulate.simps
          round64_examples round32_examples)
  show "calculateRMS_loopback (Some []) = 0" by (simp add: calculateRMS_loopback_def)
qed

section \<open>Stopping a capture\<close>

lemma try_disconnect_cases:
  "try_disconnect throws node = (case node of None \<Rightarrow> [] | Some n \<Rightarrow> if throws (Disconnect n) then [] else [Disconnect n])"
  by (simp add: try_disconnect_def platform_def split: option.splits)

lemma cleanup_returns:
  assumes "web_platform throws"
  shows "cleanup throws st =
     Inr (st\<lparr>sampleIntervalId := None, silentGain := None, analyserNode := None, sourceNode := None,
            mediaStream := None, audioContext := None, sampleBuffer := [],
            onLevelCallback := None, onPcmFrameCallback := None\<rparr>,
          (case sampleIntervalId st of None \<Rightarrow> [] | Some t \<Rightarrow> [ClearInterval t]) @
          try_disconnect throws (silentGain st) @ try_disconnect throws (analyserNode st) @
          try_disconnect throws (sourceNode st) @
          (case mediaStream st of None \<Rightarrow> [] | Some m \<Rightarrow> [StopTracks m]) @
          (case audioContext st of None \<Rightarrow> [] | Some c \<Rightarrow> [CloseContext c]))"
  using assms
  by (simp add: cleanup_def web_platform_def platform_def Let_def split: option.splits)

lemma stop_returns:
  assumes "web_platform throws"
  shows "stop throws st =
     Inr (st\<lparr>isCapturing := False, sampleIntervalId := None, silentGain := None, analyserNode := None,
            sourceNode := None, mediaStream := None, audioContext := None, sampleBuffer := [],
            onLevelCallback := None, onPcmFrameCallback := None\<rparr>,
          (case sampleIntervalId st of None \<Rightarrow> [] | Some t \<Rightarrow> [ClearInterval t]) @
          try_disconnect throws (silentGain st) @ try_disconnect throws (analyserNode st) @
          try_disconnect throws (sourceNode st) @
          (case mediaStream st of None \<Rightarrow> [] | Some m \<Rightarrow> [StopTracks m]) @
          (case audioContext st of None \<Rightarrow> [] | Some c \<Rightarrow> [CloseContext c]))"
  by (simp add: stop_def cleanup_returns [OF assms])

lemma stop_released:
  assumes "web_platform throws" "released st"
  shows "stop throws st = Inr (st, [])"
  using assms(2) by (simp add: stop_returns [OF assms(1)] released_def try_disconnect_def)

lemma stopLoopback_not_capturing:
  "\<not> loopback_isCapturing st \<Longrightarrow> stopLoopback destroyed throws st = Inr (st, [])"
  by (simp add: stopLoopback_def)

lemma stopLoopback_returns:
  "\<exists>st' calls. stopLoopback destroyed throws st = Inr (st', calls) \<and> \<not> loopback_isCapturing st'"
  by (auto simp: stopLoopback_def stopLoopback_try_def stopRMSMonitoring_def platform_def Let_def
           split: option.splits sum.splits prod.splits if_splits)

lemma stopLoopback_clean:
  assumes "loopback_isCapturing st" "\<forall>c. \<not> throws c" "\<forall>w. hiddenWindow st = Some w \<longrightarrow> \<not> destroyed w"
  shows "stopLoopback destroyed throws st =
     Inr (st\<lparr>loopback_isCapturing := False, hiddenWindow := None, pcmHandler := None,
            onPcmCallback := None, rmsInterval := None, lastPcmBuffer := None\<rparr>,
          (case hiddenWindow st of None \<Rightarrow> [] | Some w \<Rightarrow> [ExecuteJavaScript w, DestroyWindow w]) @
          (case pcmHandler st of None \<Rightarrow> [] | Some l \<Rightarrow> [RemoveListener l]) @
          (case rmsInterval st of None \<Rightarrow> [] | Some t \<Rightarrow> [ClearInterval t]))"
  using assms
  by (cases "hiddenWindow st"; cases "pcmHandler st"; cases "rmsInterval st")
     (simp_all add: stopLoopback_def stopLoopback_try_def stopRMSMonitoring_def platform_def Let_def)

lemma released_stop_state:
  "released (st\<lparr>isCapturing := False, sampleIntervalId := None, silentGain := None, analyserNode := None,
            sourceNode := None, mediaStream := None, audioContext := None, sampleBuffer := [],
            onLevelCallback := None, onPcmFrameCallback := None\<rparr>)"
  by (simp add: released_def)

lemma try_disconnect_mem:
  "node = Some n \<Longrightarrow> \<not> throws (Disconnect n) \<Longrightarrow> Disconnect n \<in> set (try_disconnect throws node)"
  by (simp add: try_disconnect_cases)

lemma capturing_loopback_eq:
  "capturing_loopback =
     \<lparr>loopback_isCapturing = True, hiddenWindow = Some 1, pcmHandler = Some 2,
      onPcmCallback = Some 3, rmsInterval = Some 4, lastPcmBuffer = None\<rparr>"
  by (simp add: capturing_loopback_def startLoopback_loaded_def startRMSMonitoring_def
        stopRMSMonitoring_def new_loopbackCapture_def Let_def)

text \<open>
  Claim C8, amended. On a platform that keeps its contract, \<open>MicCapture.stop\<close> returns
  normally from every state, whichever \<open>disconnect\<close> throws; it leaves nothing held, has
  cancelled the timer, disconnected every node whose \<open>disconnect\<close> did not throw, stopped the
  stream and closed the context; a second \<open>stop\<close> changes nothing and calls nothing, and so
  does \<open>stop\<close> on a new capture object. \<open>stopLoopback\<close> returns normally whatever
  throws, and a second call changes nothing. When no capture is running (idle, stopped, or a
  \<open>startLoopback\<close> still waiting for its window) it does nothing at all; when a capture is
  running and no platform call throws, it destroys the window, removes the listener and
  cancels the level timer.
\<close>

theorem stop_total_idempotent:
  assumes "web_platform throws" and "web_platform throws'"
  shows "(\<exists>st' calls. stop throws st = Inr (st', calls) \<and> released st' \<and>
            stop throws' st' = Inr (st', []) \<and>
            (\<forall>t. sampleIntervalId st = Some t \<longrightarrow> ClearInterval t \<in> set calls) \<and>
            (\<forall>n. (silentGain st = Some n \<or> analyserNode st = Some n \<or> sourceNode st = Some n) \<and>
                 \<not> throws (Disconnect n) \<longrightarrow> Disconnect n \<in> set calls) \<and>
            (\<forall>m. mediaStream st = Some m \<longrightarrow> StopTracks m \<in> set calls) \<and>
            (\<forall>c. audioContext st = Some c \<longrightarrow> CloseContext c \<in> set calls)) \<and>
         stop throws new_MicCapture = Inr (new_MicCapture, []) \<and>
         (\<exists>lb' calls. stopLoopback destroyed lthrows lb = Inr (lb', calls) \<and>
            \<not> loopback_isCapturing lb' \<and>
            stopLoopback destroyed' lthrows' lb' = Inr (lb', [])) \<and>
         (\<not> loopback_isCapturing lb \<longrightarrow> stopLoopback destroyed lthrows lb = Inr (lb, [])) \<and>
         (loopback_isCapturing lb \<and> (\<forall>c. \<not> lthrows c) \<and>
          (\<forall>w. hiddenWindow lb = Some w \<longrightarrow> \<not> destroyed w) \<longrightarrow>
            (\<exists>lb' calls. stopLoopback destroyed lthrows lb = Inr (lb', calls) \<and>
               loopback_released lb' \<and>
               (\<forall>w. hiddenWindow lb = Some w \<longrightarrow> DestroyWindow w \<in> set calls) \<and>
               (\<forall>l. pcmHandler lb = Some l \<longrightarrow> RemoveListener l \<in> set calls) \<and>
               (\<forall>t. rmsInterval lb = Some t \<longrightarrow> ClearInterval t \<in> set calls)))"
proof (intro conjI)
  let ?st' = "st\<lparr>isCapturing := False, sampleIntervalId := None, silentGain := None,
                analyserNode := None, sourceNode := None, mediaStream := None,
                audioContext := None, sampleBuffer := [],
                onLevelCallback := None, onPcmFrameCallback := None\<rparr>"
  let ?calls = "(case sampleIntervalId st of None \<Rightarrow> [] | Some t \<Rightarrow> [ClearInterval t]) @
          try_disconnect throws (silentGain st) @ try_disconnect throws (analyserNode st) @
          try_disconnect throws (sourceNode st) @
          (case mediaStream st of None \<Rightarrow> [] | Some m \<Rightarrow> [StopTracks m]) @
          (case audioContext st of None \<Rightarrow> [] | Some c \<Rightarrow> [CloseContext c])"
  have 1: "stop throws st = Inr (?st', ?calls)" by (rule stop_returns [OF assms(1)])
  have 2: "released ?st'" by (rule released_stop_state)
  have 3: "stop throws' ?st' = Inr (?st', [])" by (rule stop_released [OF assms(2) 2])
  have 4: "\<forall>t. sampleIntervalId st = Some t \<longrightarrow> ClearInterval t \<in> set ?calls" by simp
  have 5: "\<forall>n. (silentGain st = Some n \<or> analyserNode st = Some n \<or> sourceNode st = Some n) \<and>
                 \<not> throws (Disconnect n) \<longrightarrow> Disconnect n \<in> set ?calls"
    using try_disconnect_mem [of _ _ throws] by auto
  have 6: "\<forall>m. mediaStream st = Some m \<longrightarrow> StopTracks m \<in> set ?calls" by simp
  have 7: "\<forall>c. audioContext st = Some c \<longrightarrow> CloseContext c \<in> set ?calls" by simp
  from 1 2 3 4 5 6 7
  show "\<exists>st' calls. stop throws st = Inr (st', calls) \<and> released st' \<and>
            stop throws' st' = Inr (st', []) \<and>
            (\<forall>t. sampleIntervalId st = Some t \<longrightarrow> ClearInterval t \<in> set calls) \<and>
            (\<forall>n. (silentGain st = Some n \<or> analyserNode st = Some n \<or> sourceNode st = Some n) \<and>
                 \<not> throws (Disconnect n) \<longrightarrow> Disconnect n \<in> set calls) \<and>
            (\<forall>m. mediaStream st = Some m \<longrightarrow> StopTracks m \<in> set calls) \<and>
            (\<forall>c. audioContext st = Some c \<longrightarrow> CloseContext c \<in> set calls)"
    by blast
next
  have "released new_MicCapture" by (simp add: released_def new_MicCapture_def)
  from stop_released [OF assms(1) this]
  show "stop throws new_MicCapture = Inr (new_MicCapture, [])" .
next
  from stopLoopback_returns [of destroyed lthrows lb] obtain lb' calls where
    r: "stopLoopback destroyed lthrows lb = Inr (lb', calls)" "\<not> loopback_isCapturing lb'" by blast
  from stopLoopback_not_capturing [OF r(2)] r
  show "\<exists>lb' calls. stopLoopback destroyed lthrows lb = Inr (lb', calls) \<and>
            \<not> loopback_isCapturing lb' \<and> stopLoopback destroyed' lthrows' lb' = Inr (lb', [])"
    by blast
next
  show "\<not> loopback_isCapturing lb \<longrightarrow> stopLoopback destroyed lthrows lb = Inr (lb, [])"
    by (simp add: stopLoopback_not_capturing)
next
  show "loopback_isCapturing lb \<and> (\<forall>c. \<not> lthrows c) \<and>
          (\<forall>w. hiddenWindow lb = Some w \<longrightarrow> \<not> destroyed w) \<longrightarrow>
            (\<exists>lb' calls. stopLoopback destroyed lthrows lb = Inr (lb', calls) \<and>
               loopback_released lb' \<and>
               (\<forall>w. hiddenWindow lb = Some w \<longrightarrow> DestroyWindow w \<in> set calls) \<and>
               (\<forall>l. pcmHandler lb = Some l \<longrightarrow> RemoveListener l \<in> set calls) \<and>
               (\<forall>t. rmsInterval lb = Some t \<longrightarrow> ClearInterval t \<in> set calls))"
  proof
    assume a: "loopback_isCapturing lb \<and> (\<forall>c. \<not> lthrows c) \<and>
          (\<forall>w. hiddenWindow lb = Some w \<longrightarrow> \<not> destroyed w)"
    then have "stopLoopback destroyed lthrows lb =
     Inr (lb\<lparr>loopback_isCapturing := False, hiddenWindow := None, pcmHandler := None,
            onPcmCallback := None, rmsInterval := None, lastPcmBuffer := None\<rparr>,
          (case hiddenWindow lb of None \<Rightarrow> [] | Some w \<Rightarrow> [ExecuteJavaScript w, DestroyWindow w]) @
          (case pcmHandler lb of None \<Rightarrow> [] | Some l \<Rightarrow> [RemoveListener l]) @
          (case rmsInterval lb of None \<Rightarrow> [] | Some t \<Rightarrow> [ClearInterval t]))"
      by (intro stopLoopback_clean) auto
    then show "\<exists>lb' calls. stopLoopback destroyed lthrows lb = Inr (lb', calls) \<and>
               loopback_released lb' \<and>
               (\<forall>w. hiddenWindow lb = Some w \<longrightarrow> DestroyWindow w \<in> set calls) \<and>
               (\<forall>l. pcmHandler lb = Some l \<longrightarrow> RemoveListener l \<in> set calls) \<and>
               (\<forall>t. rmsInterval lb = Some t \<longrightarrow> ClearInterval t \<in> set calls)"
      by (simp add: loopback_released_def)
  qed
qed

theorem stop_total_idempotent_witness:
  "(\<exists>st' calls. stop (\<lambda>c. c = Disconnect 4) capturing_mic = Inr (st', calls) \<and> released st' \<and>
      stop (\<lambda>c. False) st' = Inr (st', []) \<and>
      ClearInterval 6 \<in> set calls \<and> Disconnect 5 \<in> set calls \<and> Disconnect 3 \<in> set calls \<and>
      StopTracks 2 \<in> set calls \<and> CloseContext 1 \<in> set calls) \<and>
   (\<exists>lb' calls. stopLoopback (\<lambda>w. False) (\<lambda>c. False) capturing_loopback = Inr (lb', calls) \<and>
      loopback_released lb' \<and> DestroyWindow 1 \<in> set calls \<and> RemoveListener 2 \<in> set calls \<and>
      ClearInterval 4 \<in> set calls) \<and>
   stopLoopback (\<lambda>w. False) (\<lambda>c. False) new_loopbackCapture = Inr (new_loopbackCapture, [])"
proof -
  have w1: "web_platform (\<lambda>c. c = Disconnect 4)" and w2: "web_platform (\<lambda>c. False)"
    by (simp_all add: web_platform_def)
  note t = stop_total_idempotent [OF w1 w2, of capturing_mic "\<lambda>w. False" "\<lambda>c. False"]
  have f: "sampleIntervalId capturing_mic = Some 6" "silentGain capturing_mic = Some 5"
    "sourceNode capturing_mic = Some 3" "mediaStream capturing_mic = Some 2"
    "audioContext capturing_mic = Some 1"
    by (simp_all add: capturing_mic_def)
  from t [of capturing_loopback, THEN conjunct1] obtain st' calls where
    s: "stop (\<lambda>c. c = Disconnect 4) capturing_mic = Inr (st', calls)" "released st'"
       "stop (\<lambda>c. False) st' = Inr (st', [])"
       "\<forall>t. sampleIntervalId capturing_mic = Some t \<longrightarrow> ClearInterval t \<in> set calls"
       "\<forall>n. (silentGain capturing_mic = Some n \<or> analyserNode capturing_mic = Some n \<or>
             sourceNode capturing_mic = Some n) \<and> \<not> n = 4 \<longrightarrow> Disconnect n \<in> set calls"
       "\<forall>m. mediaStream capturing_mic = Some m \<longrightarrow> StopTracks m \<in> set calls"
       "\<forall>c. audioContext capturing_mic = Some c \<longrightarrow> CloseContext c \<in> set calls"
    by auto
  from s(4) f have c1: "ClearInterval 6 \<in> set calls" by simp
  from s(5) [rule_format, of 5] f have c2: "Disconnect 5 \<in> set calls" by simp
  from s(5) [rule_format, of 3] f have c3: "Disconnect 3 \<in> set calls" by simp
  from s(6) f have c4: "StopTracks 2 \<in> set calls" by simp
  from s(7) f have c5: "CloseContext 1 \<in> set calls" by simp
  from s(1,2,3) c1 c2 c3 c4 c5
  have a: "\<exists>st' calls. stop (\<lambda>c. c = Disconnect 4) capturing_mic = Inr (st', calls) \<and> released st' \<and>
      stop (\<lambda>c. False) st' = Inr (st', []) \<and>
      ClearInterval 6 \<in> set calls \<and> Disconnect 5 \<in> set calls \<and> Disconnect 3 \<in> set calls \<and>
      StopTracks 2 \<in> set calls \<and> CloseContext 1 \<in> set calls"
    by blast
  have g: "loopback_isCapturing capturing_loopback" "hiddenWindow capturing_loopback = Some 1"
    "pcmHandler capturing_loopback = Some 2" "rmsInterval capturing_loopback = Some 4"
    by (simp_all add: capturing_loopback_eq)
  from t [of capturing_loopback, THEN conjunct2, THEN conjunct2, THEN conjunct2, THEN conjunct2] g
  have b: "\<exists>lb' calls. stopLoopback (\<lambda>w. False) (\<lambda>c. False) capturing_loopback = Inr (lb', calls) \<and>
      loopback_released lb' \<and> DestroyWindow 1 \<in> set calls \<and> RemoveListener 2 \<in> set calls \<and>
      ClearInterval 4 \<in> set calls"
    by simp
  have "\<not> loopback_isCapturing new_loopbackCapture" by (simp add: new_loopbackCapture_def)
  with t [of new_loopbackCapture, THEN conjunct2, THEN conjunct2, THEN conjunct2, THEN conjunct1]
  have c: "stopLoopback (\<lambda>w. False) (\<lambda>c. False) new_loopbackCapture = Inr (new_loopbackCapture, [])"
    by simp
  from a b c show ?thesis by blast
qed

text \<open>
  \<open>startLoopback\<close> has created the hidden window 1 and waits for it to load. \<open>stopLoopback\<close>
  finds \<open>isCapturing\<close> false and returns at once: no platform call is made, the window is not
  destroyed. The pending \<open>startLoopback\<close> then completes, and the capture runs.
\<close>

theorem stop_counterexample:
  "startLoopback_begin new_loopbackCapture 1 = Inr [CreateWindow 1] \<and>
   stopLoopback (\<lambda>w. False) (\<lambda>c. False) new_loopbackCapture = Inr (new_loopbackCapture, []) \<and>
   startLoopback_loaded (\<lambda>c. False) new_loopbackCapture 1 2 (Some 3) 4 =
     Inr (\<lparr>loopback_isCapturing = True, hiddenWindow = Some 1, pcmHandler = Some 2,
           onPcmCallback = Some 3, rmsInterval = Some 4, lastPcmBuffer = None\<rparr>,
          [AddListener 2, SetInterval 4])"
  by (simp add: startLoopback_begin_def stopLoopback_def startLoopback_loaded_def
        startRMSMonitoring_def stopRMSMonitoring_def new_loopbackCapture_def Let_def)

section \<open>Silence after stop\<close>








section \<open>The store and the frame pipeline\<close>

subsection \<open>Reading a store that has grown\<close>

lemma deref_append_old: "r < length h \<Longrightarrow> deref (h @ ext) r = deref h r"
  by (simp add: deref_def nth_append)

lemma deref_append_new: "deref (h @ [a]) (length h) = Some a"
  by (simp add: deref_def)

lemma samples_append_old: "r < length h \<Longrightarrow> samples (h @ ext) r = samples h r"
  by (simp add: samples_def deref_append_old)

lemma samples_append_new: "samples (h @ [Float32Array xs]) (length h) = xs"
  by (simp add: samples_def deref_append_new)

lemma int16_contents_append_old: "r < length h \<Longrightarrow> int16_contents (h @ ext) r = int16_contents h r"
  by (simp add: int16_contents_def deref_append_old)

lemma int16_contents_append_new: "int16_contents (h @ [Int16Array vs]) (length h) = Some vs"
  by (simp add: int16_contents_def deref_append_new)

lemma map_samples_append_old:
  "\<forall>b\<in>set bs. b < length h \<Longrightarrow> map (samples (h @ ext)) bs = map (samples h) bs"
  by (simp add: samples_append_old)

lemma deref_append_offset: "deref (h @ ext) (length h + k) = deref ext k"
  by (simp add: deref_def nth_append)

lemma deref_Cons_0: "deref (a # ext) 0 = Some a"
  by (simp add: deref_def)

lemma deref_Cons_Suc: "deref (a # ext) (Suc k) = deref ext k"
  by (simp add: deref_def)

lemma samples_append_offset: "samples (h @ ext) (length h + k) = samples ext k"
  by (simp add: samples_def deref_append_offset)

lemma samples_append_length: "samples (h @ ext) (length h) = samples ext 0"
  using samples_append_offset [of h ext 0] by simp

lemma samples_Cons_0: "samples (Float32Array xs # ext) 0 = xs"
  by (simp add: samples_def deref_Cons_0)

lemma samples_Cons_Suc: "samples (a # ext) (Suc k) = samples ext k"
  by (simp add: samples_def deref_Cons_Suc)

lemma samples_at0: "samples (h @ Float32Array xs # ext) (length h) = xs"
  by (simp add: samples_def deref_def nth_append)

lemma samples_at1: "samples (h @ a # Float32Array xs # ext) (Suc (length h)) = xs"
  by (simp add: samples_def deref_def nth_append)

lemma samples_at2: "samples (h @ a # b # Float32Array xs # ext) (Suc (Suc (length h))) = xs"
  by (simp add: samples_def deref_def nth_append)

lemma samples_at4:
  "samples (h @ a # b # c # d # Float32Array xs # ext) (Suc (Suc (Suc (Suc (length h))))) = xs"
  by (simp add: samples_def deref_def nth_append)

lemma deref_at3:
  "deref (h @ a # b # c # x # ext) (Suc (Suc (Suc (length h)))) = Some x"
  by (simp add: deref_def nth_append)

lemma sum_squares_finite:
  "\<forall>v\<in>set data. isFinite v \<Longrightarrow> \<exists>r. sum_squares data i acc = Inr r"
proof (induction data arbitrary: i acc)
  case Nil
  then show ?case by simp
next
  case (Cons v data)
  then show ?case by (cases v) simp_all
qed

lemma calculateRMS_fresh:
  "calculateRMS (h @ [Float32Array data]) (length h) =
     (if data = [] then Inl InvalidBuffer
      else (case sum_squares data 0 0 of
              Inl e \<Rightarrow> Inl e
            | Inr acc \<Rightarrow> Inr (sqrt (acc / real (length data)))))"
  by (simp add: calculateRMS_def deref_append_new)

lemma calculateRMS_accepts:
  assumes "data \<noteq> []" "\<forall>v\<in>set data. isFinite v"
  shows "\<exists>rms. calculateRMS (h @ [Float32Array data]) (length h) = Inr rms"
proof -
  from sum_squares_finite [OF assms(2), of 0 0] obtain r where "sum_squares data 0 0 = Inr r" by blast
  with assms(1) show ?thesis by (simp add: calculateRMS_fresh)
qed

lemma calculateRMS_rejects:
  assumes "data = [] \<or> (\<exists>v\<in>set data. \<not> isFinite v)"
  shows "\<exists>e. calculateRMS (h @ [Float32Array data]) (length h) = Inl e"
proof (cases "data = []")
  case True
  then show ?thesis by (simp add: calculateRMS_fresh)
next
  case False
  with assms sum_squares_rejects [of data 0 0] obtain e where "sum_squares data 0 0 = Inl e" by blast
  with False show ?thesis by (simp add: calculateRMS_fresh)
qed

lemma total_samples:
  "sum_list (map (\<lambda>buf. length (samples h buf)) bs) = length (concat (map (samples h) bs))"
  by (simp add: length_concat comp_def)

lemma processAudioFrame_rejected:
  assumes "data = [] \<or> (\<exists>v\<in>set data. \<not> isFinite v)"
  shows "processAudioFrame st h data = (st, h, []) \<or>
         processAudioFrame st h data = (st, h @ [Float32Array data], [])"
proof -
  from calculateRMS_rejects [OF assms, of h] obtain e where
    "calculateRMS (h @ [Float32Array data]) (length h) = Inl e" by blast
  then show ?thesis by (simp add: processAudioFrame_def new_array_def)
qed

lemma processAudioFrame_accepted_rms:
  assumes "analyserNode st \<noteq> None" "audioContext st \<noteq> None" "well_formed st h"
    and rms: "calculateRMS (h @ [Float32Array data]) (length h) = Inr rms"
  shows "processAudioFrame st h data =
     (if samplesPerFrame st \<le> length (buffered st h @ data) then
        (st\<lparr>sampleBuffer := (if drop (samplesPerFrame st) (buffered st h @ data) \<noteq> []
                              then [length h + 4] else [])\<rparr>,
         fst (deliver_frame
                (st\<lparr>sampleBuffer := (if drop (samplesPerFrame st) (buffered st h @ data) \<noteq> []
                                      then [length h + 4] else [])\<rparr>)
                (h @ [Float32Array data, Float32Array data, Float32Array (buffered st h @ data),
                      Float32Array (take (samplesPerFrame st) (buffered st h @ data)),
                      Float32Array (drop (samplesPerFrame st) (buffered st h @ data))])
                (length h + 3)),
         (case onLevelCallback st of Some cb \<Rightarrow> [Level cb rms] | None \<Rightarrow> []) @
         snd (deliver_frame
                (st\<lparr>sampleBuffer := (if drop (samplesPerFrame st) (buffered st h @ data) \<noteq> []
                                      then [length h + 4] else [])\<rparr>)
                (h @ [Float32Array data, Float32Array data, Float32Array (buffered st h @ data),
                      Float32Array (take (samplesPerFrame st) (buffered st h @ data)),
                      Float32Array (drop (samplesPerFrame st) (buffered st h @ data))])
                (length h + 3)))
      else (st\<lparr>sampleBuffer := sampleBuffer st @ [length h + 1]\<rparr>,
            h @ [Float32Array data, Float32Array data],
            (case onLevelCallback st of Some cb \<Rightarrow> [Level cb rms] | None \<Rightarrow> [])))"
proof -
  have old: "\<And>ext. map (samples (h @ ext)) (sampleBuffer st) = map (samples h) (sampleBuffer st)"
    using assms(3) by (intro map_samples_append_old) (simp add: well_formed_def)
  have ready: "(analyserNode st = None \<or> audioContext st = None) = False"
    using assms(1,2) by simp
  show ?thesis
    using rms
    by (auto simp: processAudioFrame_def new_array_def total_samples old buffered_def
          samples_at0 samples_at1 samples_at2 samples_at4 ready
          Let_def split_beta eval_nat_numeral)
qed

lemma processAudioFrame_accepted:
  assumes "analyserNode st \<noteq> None" "audioContext st \<noteq> None" "well_formed st h"
    and "data \<noteq> []" "\<forall>v\<in>set data. isFinite v"
  shows "\<exists>rms. processAudioFrame st h data =
     (if samplesPerFrame st \<le> length (buffered st h @ data) then
        (st\<lparr>sampleBuffer := (if drop (samplesPerFrame st) (buffered st h @ data) \<noteq> []
                              then [length h + 4] else [])\<rparr>,
         fst (deliver_frame
                (st\<lparr>sampleBuffer := (if drop (samplesPerFrame st) (buffered st h @ data) \<noteq> []
                                      then [length h + 4] else [])\<rparr>)
                (h @ [Float32Array data, Float32Array data, Float32Array (buffered st h @ data),
                      Float32Array (take (samplesPerFrame st) (buffered st h @ data)),
                      Float32Array (drop (samplesPerFrame st) (buffered st h @ data))])
                (length h + 3)),
         (case onLevelCallback st of Some cb \<Rightarrow> [Level cb rms] | None \<Rightarrow> []) @
         snd (deliver_frame
                (st\<lparr>sampleBuffer := (if drop (samplesPerFrame st) (buffered st h @ data) \<noteq> []
                                      then [length h + 4] else [])\<rparr>)
                (h @ [Float32Array data, Float32Array data, Float32Array (buffered st h @ data),
                      Float32Array (take (samplesPerFrame st) (buffered st h @ data)),
                      Float32Array (drop (samplesPerFrame st) (buffered st h @ data))])
                (length h + 3)))
      else (st\<lparr>sampleBuffer := sampleBuffer st @ [length h + 1]\<rparr>,
            h @ [Float32Array data, Float32Array data],
            (case onLevelCallback st of Some cb \<Rightarrow> [Level cb rms] | None \<Rightarrow> [])))"
proof -
  from calculateRMS_accepts [OF assms(4,5), of h] obtain rms where
    rms: "calculateRMS (h @ [Float32Array data]) (length h) = Inr rms" by blast
  from processAudioFrame_accepted_rms [OF assms(1,2,3) rms] show ?thesis by blast
qed


lemma processAudioFrame_not_ready:
  "analyserNode st = None \<or> audioContext st = None \<Longrightarrow> processAudioFrame st h data = (st, h, [])"
  by (simp add: processAudioFrame_def)

lemma processAudioFrame_ready_rejected:
  assumes "analyserNode st \<noteq> None" "audioContext st \<noteq> None"
    and "data = [] \<or> (\<exists>v\<in>set data. \<not> isFinite v)"
  shows "processAudioFrame st h data = (st, h @ [Float32Array data], [])"
proof -
  from calculateRMS_rejects [OF assms(3), of h] obtain e where
    "calculateRMS (h @ [Float32Array data]) (length h) = Inl e" by blast
  with assms(1,2) show ?thesis by (simp add: processAudioFrame_def new_array_def)
qed

subsection \<open>The utilities on any store\<close>

lemma downsample_Fin_Fin:
  assumes "deref h p = Some (Float32Array xs)"
  shows "downsample h p (Fin s) (Fin t) =
     (if xs = [] then Inl InvalidBuffer
      else if s \<le> 0 then Inl (InvalidSourceSampleRate (Fin s))
      else if t \<le> 0 then Inl (InvalidTargetSampleRate (Fin t))
      else if s = t then Inr (p, h)
      else (case downsample_body xs s t of
              Inl e \<Rightarrow> Inl e
            | Inr result \<Rightarrow> Inr (length h, h @ [Float32Array result])))"
  using assms
  by (simp add: downsample_def new_array_def split: sum.splits)

lemma downsample_not_Fin:
  assumes "deref h p = Some (Float32Array xs)" "\<not> isFinite sr \<or> \<not> isFinite tr"
  shows "\<exists>e. downsample h p sr tr = Inl e"
  using assms
  by (cases sr; cases tr) (simp_all add: downsample_def)

lemma downsampled_None:
  assumes "deref h p = Some (Float32Array xs)" and "downsampled sr tr xs = None"
  shows "\<exists>e. downsample h p sr tr = Inl e"
proof (cases "isFinite sr \<and> isFinite tr")
  case True
  then obtain s t where st: "sr = Fin s" "tr = Fin t" by (auto simp: isFinite_iff)
  from assms(2) show ?thesis
    unfolding st downsampled_def downsample_Fin_Fin [OF assms(1)] downsample_Fin_Fin [OF deref_single]
    by (auto split: if_splits sum.splits)
next
  case False
  with downsample_not_Fin [OF assms(1)] show ?thesis by blast
qed

lemma downsampled_Some:
  assumes "deref h p = Some (Float32Array xs)" and "downsampled sr tr xs = Some ys"
  shows "\<exists>r ext. downsample h p sr tr = Inr (r, h @ ext) \<and>
           deref (h @ ext) r = Some (Float32Array ys) \<and> ys \<noteq> []"
proof (cases "isFinite sr \<and> isFinite tr")
  case True
  then obtain s t where st: "sr = Fin s" "tr = Fin t" by (auto simp: isFinite_iff)
  show ?thesis
  proof (cases "s = t")
    case True
    with assms(2) have "xs \<noteq> [] \<and> \<not> s \<le> 0 \<and> ys = xs"
      unfolding st downsampled_def downsample_Fin_Fin [OF deref_single]
      by (simp add: samples_def deref_def split: if_splits)
    with True assms(1) have "downsample h p sr tr = Inr (p, h @ []) \<and>
           deref (h @ []) p = Some (Float32Array ys) \<and> ys \<noteq> []"
      unfolding st downsample_Fin_Fin [OF assms(1)] by simp
    then show ?thesis by blast
  next
    case False
    from False assms(2) have c: "xs \<noteq> [] \<and> \<not> s \<le> 0 \<and> \<not> t \<le> 0 \<and>
        downsample_body xs s t = Inr ys"
      unfolding st downsampled_def downsample_Fin_Fin [OF deref_single]
      by (auto simp: samples_def deref_def split: if_splits sum.splits)
    then have ne: "ys \<noteq> []" using downsample_body_length(1) [of xs s t ys] by simp
    from False c have "downsample h p sr tr = Inr (length h, h @ [Float32Array ys])"
      unfolding st downsample_Fin_Fin [OF assms(1)] by simp
    with ne deref_append_new [of h "Float32Array ys"] show ?thesis by blast
  qed
next
  case False
  with downsample_not_Fin [OF deref_single, of sr tr xs] assms(2) show ?thesis
    by (auto simp: downsampled_def)
qed

lemma convert_samples_length:
  "convert_samples xs i = Inr zs \<Longrightarrow> length zs = length xs"
proof (induction xs arbitrary: i zs)
  case Nil
  then show ?case by simp
next
  case (Cons v xs)
  then show ?case
    by (cases v) (auto simp: Let_def split: if_splits sum.splits)
qed

lemma floatToInt16_Float32Array:
  assumes "deref h p = Some (Float32Array ys)"
  shows "floatToInt16 h p =
     (if ys = [] then Inl InvalidBuffer
      else (case convert_samples ys 0 of
              Inl e \<Rightarrow> Inl e
            | Inr zs \<Rightarrow> Inr (length h, h @ [Int16Array zs])))"
  using assms by (simp add: floatToInt16_def new_array_def split: sum.splits)

lemma converted_None:
  assumes "deref h p = Some (Float32Array ys)" and "converted ys = None"
  shows "\<exists>e. floatToInt16 h p = Inl e"
  using assms(2)
  unfolding converted_def floatToInt16_Float32Array [OF assms(1)] floatToInt16_Float32Array [OF deref_single]
  by (auto simp: int16_contents_def deref_def split: if_splits sum.splits)

lemma converted_Some:
  assumes "deref h p = Some (Float32Array ys)" and "converted ys = Some zs"
  shows "floatToInt16 h p = Inr (length h, h @ [Int16Array zs]) \<and> length zs = length ys"
  using assms(2)
  unfolding converted_def floatToInt16_Float32Array [OF assms(1)] floatToInt16_Float32Array [OF deref_single]
  by (auto simp: int16_contents_def deref_def convert_samples_length split: if_splits sum.splits)

lemma downsampled_Some_eq:
  assumes "deref h p = Some (Float32Array xs)" and "downsampled sr tr xs = Some ys"
  shows "downsample h p sr tr =
           (if sr = tr then Inr (p, h) else Inr (length h, h @ [Float32Array ys]))"
    and "ys \<noteq> []" and "sr = tr \<Longrightarrow> ys = xs"
proof -
  have "isFinite sr \<and> isFinite tr"
  proof (rule ccontr)
    assume "\<not> (isFinite sr \<and> isFinite tr)"
    then have "\<not> isFinite sr \<or> \<not> isFinite tr" by simp
    from downsample_not_Fin [OF deref_single this] obtain e where
      "downsample [Float32Array xs] 0 sr tr = Inl e" by blast
    with assms(2) show False by (simp add: downsampled_def)
  qed
  then obtain s t where st: "sr = Fin s" "tr = Fin t" by (auto simp: isFinite_iff)
  have c: "xs \<noteq> [] \<and> \<not> s \<le> 0 \<and> \<not> t \<le> 0 \<and>
           (if s = t then ys = xs else downsample_body xs s t = Inr ys)"
    using assms(2)
    unfolding st downsampled_def downsample_Fin_Fin [OF deref_single]
    by (auto simp: samples_def deref_def split: if_splits sum.splits)
  show "downsample h p sr tr =
           (if sr = tr then Inr (p, h) else Inr (length h, h @ [Float32Array ys]))"
    using c unfolding st downsample_Fin_Fin [OF assms(1)] by (simp split: if_splits)
  show "ys \<noteq> []"
  proof (cases "s = t")
    case True
    with c show ?thesis by simp
  next
    case False
    with c downsample_body_length(1) [of xs s t ys] show ?thesis by simp
  qed
  show "sr = tr \<Longrightarrow> ys = xs" using c unfolding st by simp
qed

lemma deliver_frame_eq:
  assumes "deref h p = Some (Float32Array chunk)"
  shows "deliver_frame st h p =
     (case downsampled (sourceSampleRate st) (targetSampleRate st) chunk of
        None \<Rightarrow> (h, [])
      | Some ys \<Rightarrow>
          (case converted ys of
             None \<Rightarrow> ((if sourceSampleRate st = targetSampleRate st then h
                        else h @ [Float32Array ys]), [])
           | Some zs \<Rightarrow>
               (case onPcmFrameCallback st of
                  None \<Rightarrow> ((if sourceSampleRate st = targetSampleRate st then h
                             else h @ [Float32Array ys]) @ [Int16Array zs], [])
                | Some cb \<Rightarrow>
                    ((if sourceSampleRate st = targetSampleRate st then h
                      else h @ [Float32Array ys]) @ [Int16Array zs, Int16Array zs],
                     [PcmFrame cb (length (if sourceSampleRate st = targetSampleRate st then h
                                           else h @ [Float32Array ys]) + 1)]))))"
proof (cases "downsampled (sourceSampleRate st) (targetSampleRate st) chunk")
  case None
  from downsampled_None [OF assms None] obtain e where
    "downsample h p (sourceSampleRate st) (targetSampleRate st) = Inl e" by blast
  with None show ?thesis by (simp add: deliver_frame_def)
next
  case (Some ys)
  note ds = Some
  let ?h1 = "if sourceSampleRate st = targetSampleRate st then h else h @ [Float32Array ys]"
  let ?q = "if sourceSampleRate st = targetSampleRate st then p else length h"
  note e = downsampled_Some_eq [OF assms Some]
  have d: "downsample h p (sourceSampleRate st) (targetSampleRate st) = Inr (?q, ?h1)"
    using e(1) by simp
  have dq: "deref ?h1 ?q = Some (Float32Array ys)"
    using e(3) assms by (simp add: deref_append_new)
  have ne: "array_length (Float32Array ys) \<noteq> 0" using e(2) by simp
  show ?thesis
  proof (cases "converted ys")
    case None
    from converted_None [OF dq None] obtain e' where "floatToInt16 ?h1 ?q = Inl e'" by blast
    with d dq ne ds None show ?thesis by (simp add: deliver_frame_def)
  next
    case (Some zs)
    from converted_Some [OF dq Some] have
      c: "floatToInt16 ?h1 ?q = Inr (length ?h1, ?h1 @ [Int16Array zs])"
         "length zs = length ys" by auto
    from c(2) e(2) have nz: "array_length (Int16Array zs) \<noteq> 0" by auto
    have dn: "deref (?h1 @ [Int16Array zs]) (length ?h1) = Some (Int16Array zs)"
      by (rule deref_append_new)
    have "deliver_frame st h p =
       (case onPcmFrameCallback st of
          None \<Rightarrow> (?h1 @ [Int16Array zs], [])
        | Some cb \<Rightarrow> (?h1 @ [Int16Array zs, Int16Array zs], [PcmFrame cb (length ?h1 + 1)]))"
      unfolding deliver_frame_def d sum.case prod.case dq option.case if_not_P [OF ne] c(1)
        dn if_not_P [OF nz]
      by (simp add: new_array_def split: option.splits)
    with ds Some show ?thesis by simp
  qed
qed

subsection \<open>One call of processAudioFrame\<close>

lemma frame_refs_append [simp]: "frame_refs (xs @ ys) = frame_refs xs @ frame_refs ys"
  by (induction xs rule: frame_refs.induct) simp_all

lemma frame_refs_level [simp]:
  "frame_refs (case cb of Some c \<Rightarrow> [Level c x] | None \<Rightarrow> []) = []"
  by (cases cb) simp_all

lemma deliver_frame_summary:
  assumes "deref h p = Some (Float32Array chunk)"
  shows "\<exists>ext. fst (deliver_frame st h p) = h @ ext \<and>
           map (int16_contents (h @ ext)) (frame_refs (snd (deliver_frame st h p))) = encoded st chunk \<and>
           (\<forall>r\<in>set (frame_refs (snd (deliver_frame st h p))).
              length h < r \<and> r < length (h @ ext) \<and>
              int16_contents (h @ ext) (r - 1) = int16_contents (h @ ext) r) \<and>
           length (frame_refs (snd (deliver_frame st h p))) \<le> 1"
proof -
  let ?sr = "sourceSampleRate st" and ?tr = "targetSampleRate st"
  show ?thesis
  proof (cases "downsampled ?sr ?tr chunk")
    case None
    then have "deliver_frame st h p = (h @ [], [])" "encoded st chunk = []"
      by (simp_all add: deliver_frame_eq [OF assms] encoded_def frame_of_def split: option.splits)
    then show ?thesis by (intro exI [of _ "[]"]) simp
  next
    case (Some ys)
    note ds = Some
    let ?e1 = "if ?sr = ?tr then [] else [Float32Array ys]"
    have h1: "(if ?sr = ?tr then h else h @ [Float32Array ys]) = h @ ?e1" by simp
    show ?thesis
    proof (cases "converted ys")
      case None
      with ds have "deliver_frame st h p = (h @ ?e1, [])" "encoded st chunk = []"
        by (simp_all add: deliver_frame_eq [OF assms] encoded_def frame_of_def split: option.splits)
      then show ?thesis by (intro exI [of _ ?e1]) simp
    next
      case (Some zs)
      note cs = Some
      show ?thesis
      proof (cases "onPcmFrameCallback st")
        case None
        with ds cs have "deliver_frame st h p = (h @ (?e1 @ [Int16Array zs]), [])" "encoded st chunk = []"
          by (simp_all add: deliver_frame_eq [OF assms] encoded_def frame_of_def)
        then show ?thesis by (intro exI [of _ "?e1 @ [Int16Array zs]"]) simp
      next
        case (Some cb)
        with ds cs have d: "deliver_frame st h p =
            (h @ (?e1 @ [Int16Array zs, Int16Array zs]), [PcmFrame cb (length (h @ ?e1) + 1)])"
          and e: "encoded st chunk = [Some zs]"
          by (simp_all add: deliver_frame_eq [OF assms] encoded_def frame_of_def)
        have c1: "int16_contents (h @ (?e1 @ [Int16Array zs, Int16Array zs])) (length (h @ ?e1) + 1) = Some zs"
          by (simp add: int16_contents_def deref_def nth_append)
        have c0: "int16_contents (h @ (?e1 @ [Int16Array zs, Int16Array zs])) (length (h @ ?e1)) = Some zs"
          by (simp add: int16_contents_def deref_def nth_append)
        show ?thesis
          apply (intro exI [of _ "?e1 @ [Int16Array zs, Int16Array zs]"])
          unfolding d e fst_conv snd_conv frame_refs.simps list.map
          using c0 c1 by simp
      qed
    qed
  qed
qed

lemma processAudioFrame_step:
  assumes "analyserNode st \<noteq> None" "audioContext st \<noteq> None" "well_formed st h"
    and "data \<noteq> []" "\<forall>v\<in>set data. isFinite v"
  shows "\<exists>bs ext evs.
           processAudioFrame st h data = (st\<lparr>sampleBuffer := bs\<rparr>, h @ ext, evs) \<and>
           well_formed (st\<lparr>sampleBuffer := bs\<rparr>) (h @ ext) \<and>
           (\<forall>b\<in>set bs. b \<in> set (sampleBuffer st) \<or> length h \<le> b) \<and>
           buffered (st\<lparr>sampleBuffer := bs\<rparr>) (h @ ext) =
             (if samplesPerFrame st \<le> length (buffered st h @ data)
              then drop (samplesPerFrame st) (buffered st h @ data)
              else buffered st h @ data) \<and>
           map (int16_contents (h @ ext)) (frame_refs evs) =
             (if samplesPerFrame st \<le> length (buffered st h @ data)
              then encoded st (take (samplesPerFrame st) (buffered st h @ data))
              else []) \<and>
           (\<forall>r\<in>set (frame_refs evs).
              length h < r \<and> r < length (h @ ext) \<and> r \<notin> set bs \<and>
              int16_contents (h @ ext) (r - 1) = int16_contents (h @ ext) r) \<and>
           length (frame_refs evs) \<le> 1"
proof -
  let ?all = "buffered st h @ data"
  let ?n = "samplesPerFrame st"
  from processAudioFrame_accepted [OF assms] obtain rms where
    nf: "processAudioFrame st h data =
     (if ?n \<le> length ?all then
        (st\<lparr>sampleBuffer := (if drop ?n ?all \<noteq> [] then [length h + 4] else [])\<rparr>,
         fst (deliver_frame
                (st\<lparr>sampleBuffer := (if drop ?n ?all \<noteq> [] then [length h + 4] else [])\<rparr>)
                (h @ [Float32Array data, Float32Array data, Float32Array ?all,
                      Float32Array (take ?n ?all), Float32Array (drop ?n ?all)])
                (length h + 3)),
         (case onLevelCallback st of Some cb \<Rightarrow> [Level cb rms] | None \<Rightarrow> []) @
         snd (deliver_frame
                (st\<lparr>sampleBuffer := (if drop ?n ?all \<noteq> [] then [length h + 4] else [])\<rparr>)
                (h @ [Float32Array data, Float32Array data, Float32Array ?all,
                      Float32Array (take ?n ?all), Float32Array (drop ?n ?all)])
                (length h + 3)))
      else (st\<lparr>sampleBuffer := sampleBuffer st @ [length h + 1]\<rparr>,
            h @ [Float32Array data, Float32Array data],
            (case onLevelCallback st of Some cb \<Rightarrow> [Level cb rms] | None \<Rightarrow> [])))"
    by blast
  show ?thesis
  proof (cases "?n \<le> length ?all")
    case False
    let ?bs = "sampleBuffer st @ [length h + 1]"
    let ?ext = "[Float32Array data, Float32Array data]"
    have old: "map (samples (h @ ?ext)) (sampleBuffer st) = map (samples h) (sampleBuffer st)"
      using assms(3) by (intro map_samples_append_old) (simp add: well_formed_def)
    have 1: "processAudioFrame st h data = (st\<lparr>sampleBuffer := ?bs\<rparr>, h @ ?ext,
               (case onLevelCallback st of Some cb \<Rightarrow> [Level cb rms] | None \<Rightarrow> []))"
      using nf False by simp
    have 2: "well_formed (st\<lparr>sampleBuffer := ?bs\<rparr>) (h @ ?ext)"
      using assms(3) by (auto simp: well_formed_def)
    have 3: "buffered (st\<lparr>sampleBuffer := ?bs\<rparr>) (h @ ?ext) = ?all"
      using samples_at1 [of h "Float32Array data" data "[]"]
      by (simp add: buffered_def old)
    show ?thesis
      apply (intro exI [of _ ?bs] exI [of _ ?ext]
          exI [of _ "(case onLevelCallback st of Some cb \<Rightarrow> [Level cb rms] | None \<Rightarrow> [])"])
      using 1 2 3 False by simp
  next
    case True
    define tk where "tk = take ?n ?all"
    define dr where "dr = drop ?n ?all"
    define bs where "bs = (if dr \<noteq> [] then [length h + 4] else [])"
    define st' where "st' = st\<lparr>sampleBuffer := bs\<rparr>"
    define five where "five = [Float32Array data, Float32Array data, Float32Array ?all,
                      Float32Array tk, Float32Array dr]"
    define lev where "lev = (case onLevelCallback st of Some cb \<Rightarrow> [Level cb rms] | None \<Rightarrow> [])"
    have l5: "length five = 5" by (simp add: five_def)
    have dp: "deref (h @ five) (length h + 3) = Some (Float32Array tk)"
      using deref_at3 [of h] by (simp add: eval_nat_numeral five_def)
    from deliver_frame_summary [OF dp, of st'] obtain ext where
      d: "fst (deliver_frame st' (h @ five) (length h + 3)) = (h @ five) @ ext"
         "map (int16_contents ((h @ five) @ ext))
            (frame_refs (snd (deliver_frame st' (h @ five) (length h + 3))))
          = encoded st' tk"
         "\<forall>r\<in>set (frame_refs (snd (deliver_frame st' (h @ five) (length h + 3)))).
              length (h @ five) < r \<and> r < length ((h @ five) @ ext) \<and>
              int16_contents ((h @ five) @ ext) (r - 1) = int16_contents ((h @ five) @ ext) r"
         "length (frame_refs (snd (deliver_frame st' (h @ five) (length h + 3)))) \<le> 1"
      by blast
    define fe where "fe = snd (deliver_frame st' (h @ five) (length h + 3))"
    have 1: "processAudioFrame st h data = (st\<lparr>sampleBuffer := bs\<rparr>, h @ (five @ ext), lev @ fe)"
      using nf True d(1)
      by (simp add: st'_def bs_def five_def tk_def dr_def lev_def fe_def)
    have 2: "well_formed (st\<lparr>sampleBuffer := bs\<rparr>) (h @ (five @ ext))"
      by (simp add: well_formed_def bs_def l5)
    have "samples (h @ (five @ ext)) (length h + 4) = dr"
      using samples_at4 [of h _ _ _ _ dr ext] by (simp add: eval_nat_numeral five_def)
    then have 3: "buffered (st\<lparr>sampleBuffer := bs\<rparr>) (h @ (five @ ext)) = drop ?n ?all"
      by (simp add: buffered_def bs_def dr_def)
    have enc: "encoded st' tk = encoded st tk"
      by (simp add: encoded_def st'_def split: option.splits)
    have 4: "map (int16_contents (h @ (five @ ext))) (frame_refs (lev @ fe)) = encoded st (take ?n ?all)"
      using d(2) enc by (simp add: lev_def fe_def tk_def)
    have 5: "\<forall>r\<in>set (frame_refs (lev @ fe)).
              length h < r \<and> r < length (h @ (five @ ext)) \<and> r \<notin> set bs \<and>
              int16_contents (h @ (five @ ext)) (r - 1) = int16_contents (h @ (five @ ext)) r"
    proof
      fix r assume "r \<in> set (frame_refs (lev @ fe))"
      then have "r \<in> set (frame_refs (snd (deliver_frame st' (h @ five) (length h + 3))))"
        by (simp add: lev_def fe_def)
      with d(3) have r: "length (h @ five) < r" "r < length ((h @ five) @ ext)"
         "int16_contents ((h @ five) @ ext) (r - 1) = int16_contents ((h @ five) @ ext) r"
        by blast+
      from r(1) have "r \<notin> set bs" by (auto simp: bs_def l5)
      with r show "length h < r \<and> r < length (h @ (five @ ext)) \<and> r \<notin> set bs \<and>
              int16_contents (h @ (five @ ext)) (r - 1) = int16_contents (h @ (five @ ext)) r"
        by simp
    qed
    have 6: "length (frame_refs (lev @ fe)) \<le> 1" using d(4) by (simp add: lev_def fe_def)
    have 7: "\<forall>b\<in>set bs. b \<in> set (sampleBuffer st) \<or> length h \<le> b" by (simp add: bs_def)
    from 1 2 3 4 5 6 7 True show ?thesis by (intro exI [of _ bs] exI [of _ "five @ ext"] exI [of _ "lev @ fe"]) simp
  qed
qed

subsection \<open>Slicing into frames\<close>

lemma chunks_of_short: "length xs < n \<Longrightarrow> chunks_of n xs = []"
  by (simp add: chunks_of_def)

lemma chunks_of_step:
  assumes "0 < n" "n \<le> length xs"
  shows "chunks_of n xs = take n xs # chunks_of n (drop n xs)"
proof -
  have d: "length xs div n = Suc ((length xs - n) div n)"
    using assms by (simp add: le_div_geq)
  have "[0..<Suc ((length xs - n) div n)] = 0 # map Suc [0..<(length xs - n) div n]"
    by (simp add: upt_conv_Cons map_Suc_upt del: upt_Suc)
  then show ?thesis
    by (simp add: chunks_of_def d comp_def add.commute del: upt_Suc)
qed

lemma drop_whole_chunks:
  assumes "0 < n" "n \<le> length ys"
  shows "drop (length (drop n ys) div n * n) (drop n ys) = drop (length ys div n * n) ys"
proof -
  have "length ys div n = Suc ((length ys - n) div n)"
    using assms by (simp add: le_div_geq)
  then show ?thesis by (simp add: add.commute)
qed

lemma assemble_chunks:
  assumes "0 < n" "length buf < n" "\<forall>b\<in>set blocks. length b \<le> n"
  shows "assemble n buf blocks =
           (chunks_of n (buf @ concat blocks),
            drop (length (buf @ concat blocks) div n * n) (buf @ concat blocks))"
  using assms(2,3)
proof (induction blocks arbitrary: buf)
  case Nil
  then show ?case by (simp add: chunks_of_short)
next
  case (Cons b bs)
  let ?all = "buf @ b"
  let ?full = "buf @ concat (b # bs)"
  have full: "?full = ?all @ concat bs" by simp
  from Cons.prems have lb: "length b \<le> n" and rest: "\<forall>b\<in>set bs. length b \<le> n" by auto
  show ?case
  proof (cases "n \<le> length ?all")
    case True
    have short: "length (drop n ?all) < n" using Cons.prems(1) lb by simp
    have dr: "drop n ?all @ concat bs = drop n ?full" using True by simp
    have tk: "take n ?all = take n ?full" using True by simp
    have le: "n \<le> length ?full" using True by simp
    have res: "drop (length (drop n ?full) div n * n) (drop n ?full)
               = drop (length ?full div n * n) ?full"
      by (rule drop_whole_chunks [OF assms(1) le])
    have "assemble n buf (b # bs) =
            (take n ?all # fst (assemble n (drop n ?all) bs), snd (assemble n (drop n ?all) bs))"
      using True by simp
    also have "\<dots> = (take n ?full # chunks_of n (drop n ?full),
                      drop (length (drop n ?full) div n * n) (drop n ?full))"
      unfolding Cons.IH [OF short rest] dr tk by simp
    also have "\<dots> = (chunks_of n ?full, drop (length ?full div n * n) ?full)"
      unfolding res chunks_of_step [OF assms(1) le] by simp
    finally show ?thesis .
  next
    case False
    then have short: "length ?all < n" by simp
    from Cons.IH [OF short rest] False show ?thesis by simp
  qed
qed

lemma convert_samples_finite:
  "\<forall>v\<in>set ys. isFinite v \<Longrightarrow> \<exists>zs. convert_samples ys i = Inr zs"
proof (induction ys arbitrary: i)
  case Nil
  then show ?case by simp
next
  case (Cons v ys)
  then obtain x where v: "v = Fin x" by (auto simp: isFinite_iff)
  from Cons obtain zs where zs: "convert_samples ys (i + 1) = Inr zs" by fastforce
  have "\<not> (Math_round (max (- 1) (min 1 x) * 32767) < - 32768 \<or>
           Math_round (max (- 1) (min 1 x) * 32767) > 32767)"
    using scale_in_range [of x] by linarith
  with v zs show ?case by (simp add: Let_def)
qed

lemma frame_of_bounded:
  assumes "chunk \<noteq> []" "\<forall>v\<in>set chunk. bounded_sample v" "int (length chunk) \<le> max_array_length"
    and "0 < s" "0 < t"
    and "s = t \<or> (t < s \<and> fdiv (Fin s) (Fin t) = Fin ratio \<and>
                   fdiv (Fin (real (length chunk))) (Fin ratio) = Fin q \<and> 1 \<le> Math_round q)"
  shows "\<exists>zs. frame_of (Fin s) (Fin t) chunk = Some zs \<and>
           length zs = (if s = t then length chunk else nat (Math_round q))"
proof -
  have fin: "\<forall>v\<in>set chunk. isFinite v" using assms(2) bounded_sample_finite by blast
  have len: "length chunk < 2 ^ 53" using assms(3) by (simp add: max_array_length_def)
  have "\<exists>ys. downsampled (Fin s) (Fin t) chunk = Some ys \<and> (\<forall>v\<in>set ys. isFinite v) \<and>
          length ys = (if s = t then length chunk else nat (Math_round q))"
  proof (cases "s = t")
    case True
    with assms(1,4) fin show ?thesis
      unfolding downsampled_def downsample_Fin_Fin [OF deref_single]
      by (simp add: samples_def deref_def)
  next
    case False
    with assms(6) have r0: "t < s" "fdiv (Fin s) (Fin t) = Fin ratio"
      "fdiv (Fin (real (length chunk))) (Fin ratio) = Fin q" "1 \<le> Math_round q" by auto
    note n = newLength_le_length [OF assms(5) r0(1,2,3) len]
    have r: "fdiv (Fin s) (Fin t) = Fin ratio" "0 < ratio"
      "fdiv (Fin (real (length chunk))) (Fin ratio) = Fin q"
      "1 \<le> Math_round q" "Math_round q \<le> max_array_length"
      using r0 n assms(3) by simp_all
    from downsample_loop_bounded [OF assms(2) len, of ratio "nat (Math_round q)" 0 0] obtain ys where
      ys: "downsample_loop chunk ratio (nat (Math_round q)) 0 0 = Inr ys" by blast
    from downsample_loop_length [OF ys] have l: "length ys = nat (Math_round q)" by simp
    have b: "downsample_body chunk s t = Inr ys"
      unfolding downsample_body_reached [OF r(1,2,3)] using r(4,5) ys by simp
    with False assms(1,4,5) l downsample_loop_finite [OF ys] show ?thesis
      unfolding downsampled_def downsample_Fin_Fin [OF deref_single]
      by (simp add: samples_def deref_def)
  qed
  then obtain ys where ys: "downsampled (Fin s) (Fin t) chunk = Some ys" "\<forall>v\<in>set ys. isFinite v"
    "length ys = (if s = t then length chunk else nat (Math_round q))" by blast
  from assms(1,6) ys(3) have ne: "ys \<noteq> []" by (auto split: if_splits)
  from convert_samples_finite [OF ys(2), of 0] obtain zs where zs: "convert_samples ys 0 = Inr zs"
    by blast
  from convert_samples_length [OF zs] have "length zs = length ys" .
  moreover have "converted ys = Some zs"
    using ne zs unfolding converted_def floatToInt16_Float32Array [OF deref_single]
    by (simp add: int16_contents_def deref_def)
  ultimately show ?thesis using ys by (simp add: frame_of_def)
qed

lemma length_chunks_of [simp]: "length (chunks_of n xs) = length xs div n"
  by (simp add: chunks_of_def)

lemma chunks_of_member:
  assumes "c \<in> set (chunks_of n xs)"
  shows "length c = n \<and> set c \<subseteq> set xs"
proof -
  from assms obtain k where k: "k < length xs div n" "c = take n (drop (k * n) xs)"
    by (auto simp: chunks_of_def)
  have "0 < n" using k(1) by (cases n) simp_all
  have "Suc k \<le> length xs div n" using k(1) by simp
  then have "Suc k * n \<le> length xs div n * n" by (rule mult_le_mono1)
  also have "\<dots> \<le> length xs" by simp
  finally have "k * n + n \<le> length xs" by simp
  then have "length c = n" using k(2) by simp
  moreover have "set c \<subseteq> set xs"
    unfolding k(2) using set_take_subset set_drop_subset by fast
  ultimately show ?thesis by blast
qed

lemma concat_take_chunks:
  "m * n \<le> length xs \<Longrightarrow> concat (map (\<lambda>k. take n (drop (k * n) xs)) [0..<m]) = take (m * n) xs"
proof (induction m)
  case 0
  then show ?case by simp
next
  case (Suc m)
  then have le: "m * n \<le> length xs" by simp
  have "take (Suc m * n) xs = take (m * n + n) xs" by (simp add: add.commute)
  also have "\<dots> = take (m * n) xs @ take n (drop (m * n) xs)" by (rule take_add)
  finally have t: "take (Suc m * n) xs = take (m * n) xs @ take n (drop (m * n) xs)" .
  have "concat (map (\<lambda>k. take n (drop (k * n) xs)) [0..<Suc m])
          = concat (map (\<lambda>k. take n (drop (k * n) xs)) [0..<m]) @ take n (drop (m * n) xs)"
    by simp
  with Suc.IH [OF le] t show ?case by simp
qed

lemma concat_chunks_of:
  "concat (chunks_of n xs) @ drop (length xs div n * n) xs = xs"
proof -
  have "length xs div n * n \<le> length xs" by simp
  from concat_take_chunks [OF this] show ?thesis by (simp add: chunks_of_def)
qed

lemma length_residual: "length (drop (length xs div n * n) xs) = length xs mod n"
  by (simp add: minus_div_mult_eq_mod)

lemma product_48000_tenth:
  "fmul (Fin 48000) (Fin (3602879701896397 / 36028797018963968)) = Fin 4800"
  unfolding fmul.simps round64_def
  by (subst round_to_normal [where e = 12]) (simp_all add: round_even_def power_int_minus)

lemma product_20_tenth:
  "fmul (Fin 20) (Fin (3602879701896397 / 36028797018963968)) = Fin 2"
  unfolding fmul.simps round64_def
  by (subst round_to_normal [where e = 1]) (simp_all add: round_even_def power_int_minus)

lemma renderer_samplesPerFrame_eq: "renderer_samplesPerFrame = 4800"
  unfolding renderer_samplesPerFrame_def round64_tenth product_48000_tenth
  by (simp add: Math_round_def)

lemma frame_size_48000: "frame_size 48000 = 4800"
  unfolding frame_size_def frameDuration_def round64_tenth product_48000_tenth
  by (simp add: Math_round_def)

lemma frame_size_20: "frame_size 20 = 2"
  unfolding frame_size_def frameDuration_def round64_tenth product_20_tenth
  by (simp add: Math_round_def)

lemma processFrame_step:
  assumes "window_isCapturing st"
  shows "\<exists>bs. processFrame st d =
           (st\<lparr>renderer_sampleBuffer := bs\<rparr>,
            (if renderer_samplesPerFrame \<le> length (concat (renderer_sampleBuffer st) @ d)
             then [map to_pcm16 (take renderer_samplesPerFrame (concat (renderer_sampleBuffer st) @ d))]
             else [])) \<and>
           concat bs =
             (if renderer_samplesPerFrame \<le> length (concat (renderer_sampleBuffer st) @ d)
              then drop renderer_samplesPerFrame (concat (renderer_sampleBuffer st) @ d)
              else concat (renderer_sampleBuffer st) @ d)"
proof -
  let ?n = renderer_samplesPerFrame
  let ?all = "concat (renderer_sampleBuffer st) @ d"
  have total: "sum_list (map length (renderer_sampleBuffer st @ [d])) = length ?all"
    by (simp add: length_concat)
  show ?thesis
  proof (cases "?n \<le> length ?all")
    case True
    define bs where "bs = (if length (drop ?n ?all) > 0 then [drop ?n ?all] else [])"
    have "processFrame st d = (st\<lparr>renderer_sampleBuffer := bs\<rparr>, [map to_pcm16 (take ?n ?all)])"
      using assms True total unfolding processFrame_def Let_def bs_def by simp
    moreover have "concat bs = drop ?n ?all" by (simp add: bs_def)
    ultimately show ?thesis using True by (intro exI [of _ bs]) simp
  next
    case False
    have "processFrame st d = (st\<lparr>renderer_sampleBuffer := renderer_sampleBuffer st @ [d]\<rparr>, [])"
      using assms False total unfolding processFrame_def Let_def by simp
    with False show ?thesis by (intro exI [of _ "renderer_sampleBuffer st @ [d]"]) simp
  qed
qed

lemma processFrames_run:
  assumes "window_isCapturing st"
  shows "\<exists>bs. processFrames st blocks =
           (st\<lparr>renderer_sampleBuffer := bs\<rparr>,
            map (map to_pcm16)
              (fst (assemble renderer_samplesPerFrame (concat (renderer_sampleBuffer st)) blocks))) \<and>
           concat bs = snd (assemble renderer_samplesPerFrame (concat (renderer_sampleBuffer st)) blocks)"
  using assms
proof (induction blocks arbitrary: st)
  case Nil
  have "st\<lparr>renderer_sampleBuffer := renderer_sampleBuffer st\<rparr> = st" by simp
  then show ?case by (intro exI [of _ "renderer_sampleBuffer st"]) simp
next
  case (Cons d ds)
  let ?n = renderer_samplesPerFrame
  let ?all = "concat (renderer_sampleBuffer st) @ d"
  from processFrame_step [OF Cons.prems, of d] obtain bs1 where
    s: "processFrame st d =
           (st\<lparr>renderer_sampleBuffer := bs1\<rparr>,
            (if ?n \<le> length ?all then [map to_pcm16 (take ?n ?all)] else []))"
       "concat bs1 = (if ?n \<le> length ?all then drop ?n ?all else ?all)"
    by blast
  define st1 where "st1 = st\<lparr>renderer_sampleBuffer := bs1\<rparr>"
  have c1: "window_isCapturing st1" using Cons.prems by (simp add: st1_def)
  from Cons.IH [OF c1] obtain bs2 where
    t: "processFrames st1 ds =
           (st1\<lparr>renderer_sampleBuffer := bs2\<rparr>,
            map (map to_pcm16) (fst (assemble ?n (concat (renderer_sampleBuffer st1)) ds)))"
       "concat bs2 = snd (assemble ?n (concat (renderer_sampleBuffer st1)) ds)"
    by blast
  have b1: "concat (renderer_sampleBuffer st1) = (if ?n \<le> length ?all then drop ?n ?all else ?all)"
    using s(2) by (simp add: st1_def)
  have st2: "st1\<lparr>renderer_sampleBuffer := bs2\<rparr> = st\<lparr>renderer_sampleBuffer := bs2\<rparr>"
    by (simp add: st1_def)
  have "processFrames st (d # ds) =
          (st\<lparr>renderer_sampleBuffer := bs2\<rparr>,
           map (map to_pcm16) (fst (assemble ?n (concat (renderer_sampleBuffer st)) (d # ds))))"
    using s(1) t(1) unfolding st2 b1 by (simp add: st1_def)
  moreover have "concat bs2 = snd (assemble ?n (concat (renderer_sampleBuffer st)) (d # ds))"
    using t(2) unfolding b1 by simp
  ultimately show ?case by blast
qed

lemma sqrt_quarter: "sqrt (1 / 4) = 1 / 2"
  by (simp add: real_sqrt_divide)

lemma slow_mic_trace:
  "processAudioFrame slow_mic [] [Fin (1 / 2), Fin (1 / 2), Fin (- 1 / 2), Fin (- 1 / 2)] =
     (slow_mic\<lparr>sampleBuffer := [4]\<rparr>,
      [Float32Array [Fin (1 / 2), Fin (1 / 2), Fin (- 1 / 2), Fin (- 1 / 2)],
       Float32Array [Fin (1 / 2), Fin (1 / 2), Fin (- 1 / 2), Fin (- 1 / 2)],
       Float32Array [Fin (1 / 2), Fin (1 / 2), Fin (- 1 / 2), Fin (- 1 / 2)],
       Float32Array [Fin (1 / 2), Fin (1 / 2)],
       Float32Array [Fin (- 1 / 2), Fin (- 1 / 2)],
       Int16Array [16384, 16384],
       Int16Array [16384, 16384]],
      [Level 7 (1 / 2), PcmFrame 8 6])"
  by (simp add: processAudioFrame_def slow_mic_def capturing_mic_def frame_size_20 new_array_def
     calculateRMS_def deref_def samples_def deliver_frame_def downsample_def floatToInt16_def Let_def
     Math_round_def sqrt_quarter)

subsection \<open>A sequence of calls\<close>

lemma encoded_sampleBuffer [simp]: "encoded (st\<lparr>sampleBuffer := bs\<rparr>) c = encoded st c"
  by (simp add: encoded_def split: option.splits)

lemma push_all_run:
  assumes "analyserNode st \<noteq> None" "audioContext st \<noteq> None" "well_formed st h"
    and "\<forall>b\<in>set blocks. b \<noteq> [] \<and> (\<forall>v\<in>set b. isFinite v)"
  shows "\<exists>bs ext evs.
           push_all st h blocks = (st\<lparr>sampleBuffer := bs\<rparr>, h @ ext, evs) \<and>
           well_formed (st\<lparr>sampleBuffer := bs\<rparr>) (h @ ext) \<and>
           buffered (st\<lparr>sampleBuffer := bs\<rparr>) (h @ ext)
             = snd (assemble (samplesPerFrame st) (buffered st h) blocks) \<and>
           map (int16_contents (h @ ext)) (frame_refs evs)
             = concat (map (encoded st) (fst (assemble (samplesPerFrame st) (buffered st h) blocks))) \<and>
           (\<forall>r\<in>set (frame_refs evs). r < length (h @ ext))"
  using assms
proof (induction blocks arbitrary: st h)
  case Nil
  have "push_all st h [] = (st\<lparr>sampleBuffer := sampleBuffer st\<rparr>, h @ [], [])" by simp
  moreover have "st\<lparr>sampleBuffer := sampleBuffer st\<rparr> = st" by simp
  ultimately show ?case using Nil.prems(3)
    by (intro exI [of _ "sampleBuffer st"] exI [of _ "[]"] exI [of _ "[]"]) simp
next
  case (Cons d ds)
  let ?n = "samplesPerFrame st"
  let ?all = "buffered st h @ d"
  from Cons.prems(4) have acc: "d \<noteq> []" "\<forall>v\<in>set d. isFinite v"
    and rest: "\<forall>b\<in>set ds. b \<noteq> [] \<and> (\<forall>v\<in>set b. isFinite v)" by auto
  from processAudioFrame_step [OF Cons.prems(1,2,3) acc] obtain bs1 ext1 evs1 where
    s: "processAudioFrame st h d = (st\<lparr>sampleBuffer := bs1\<rparr>, h @ ext1, evs1)"
       "well_formed (st\<lparr>sampleBuffer := bs1\<rparr>) (h @ ext1)"
       "buffered (st\<lparr>sampleBuffer := bs1\<rparr>) (h @ ext1) =
             (if ?n \<le> length ?all then drop ?n ?all else ?all)"
       "map (int16_contents (h @ ext1)) (frame_refs evs1) =
             (if ?n \<le> length ?all then encoded st (take ?n ?all) else [])"
       "\<forall>r\<in>set (frame_refs evs1). length h < r \<and> r < length (h @ ext1)"
    by blast
  define st1 where "st1 = st\<lparr>sampleBuffer := bs1\<rparr>"
  define h1 where "h1 = h @ ext1"
  have r1: "analyserNode st1 \<noteq> None" "audioContext st1 \<noteq> None"
    using Cons.prems(1,2) by (simp_all add: st1_def)
  have w1: "well_formed st1 h1" using s(2) by (simp add: st1_def h1_def)
  from Cons.IH [OF r1 w1 rest] obtain bs2 ext2 evs2 where
    t: "push_all st1 h1 ds = (st1\<lparr>sampleBuffer := bs2\<rparr>, h1 @ ext2, evs2)"
       "well_formed (st1\<lparr>sampleBuffer := bs2\<rparr>) (h1 @ ext2)"
       "buffered (st1\<lparr>sampleBuffer := bs2\<rparr>) (h1 @ ext2)
             = snd (assemble (samplesPerFrame st1) (buffered st1 h1) ds)"
       "map (int16_contents (h1 @ ext2)) (frame_refs evs2)
             = concat (map (encoded st1) (fst (assemble (samplesPerFrame st1) (buffered st1 h1) ds)))"
       "\<forall>r\<in>set (frame_refs evs2). r < length (h1 @ ext2)"
    by blast
  have st2: "st1\<lparr>sampleBuffer := bs2\<rparr> = st\<lparr>sampleBuffer := bs2\<rparr>" by (simp add: st1_def)
  have n1: "samplesPerFrame st1 = ?n" by (simp add: st1_def)
  have e1: "encoded st1 = encoded st" by (rule ext) (simp add: st1_def)
  have b1: "buffered st1 h1 = (if ?n \<le> length ?all then drop ?n ?all else ?all)"
    using s(3) by (simp add: st1_def h1_def)
  have run: "push_all st h (d # ds) = (st\<lparr>sampleBuffer := bs2\<rparr>, h @ (ext1 @ ext2), evs1 @ evs2)"
    using s(1) t(1) by (simp add: st1_def h1_def)
  have wf: "well_formed (st\<lparr>sampleBuffer := bs2\<rparr>) (h @ (ext1 @ ext2))"
    using t(2) by (simp add: st2 h1_def)
  have buf: "buffered (st\<lparr>sampleBuffer := bs2\<rparr>) (h @ (ext1 @ ext2))
               = snd (assemble ?n (buffered st h) (d # ds))"
    using t(3) unfolding st2 n1 b1 by (simp add: h1_def)
  have old: "map (int16_contents (h @ (ext1 @ ext2))) (frame_refs evs1)
               = map (int16_contents (h @ ext1)) (frame_refs evs1)"
  proof (rule map_cong [OF refl])
    fix r assume "r \<in> set (frame_refs evs1)"
    with s(5) have "r < length (h @ ext1)" by blast
    from int16_contents_append_old [OF this, of ext2]
    show "int16_contents (h @ (ext1 @ ext2)) r = int16_contents (h @ ext1) r" by simp
  qed
  have frames: "map (int16_contents (h @ (ext1 @ ext2))) (frame_refs (evs1 @ evs2))
               = concat (map (encoded st) (fst (assemble ?n (buffered st h) (d # ds))))"
    using t(4) unfolding n1 b1 e1 by (simp add: old s(4) h1_def)
  have valid: "\<forall>r\<in>set (frame_refs (evs1 @ evs2)). r < length (h @ (ext1 @ ext2))"
    using s(5) t(5) by (auto simp: h1_def)
  from run wf buf frames valid show ?case
    by (intro exI [of _ bs2] exI [of _ "ext1 @ ext2"] exI [of _ "evs1 @ evs2"]) simp
qed

lemma processAudioFrame_at_most_one:
  assumes "well_formed st h"
  shows "length (frame_refs (snd (snd (processAudioFrame st h d)))) \<le> 1"
proof (cases "analyserNode st = None \<or> audioContext st = None")
  case True
  then show ?thesis by (simp add: processAudioFrame_not_ready)
next
  case False
  then have ready: "analyserNode st \<noteq> None" "audioContext st \<noteq> None" by simp_all
  show ?thesis
  proof (cases "d = [] \<or> (\<exists>v\<in>set d. \<not> isFinite v)")
    case True
    from processAudioFrame_ready_rejected [OF ready True] show ?thesis by simp
  next
    case False
    then have "d \<noteq> []" "\<forall>v\<in>set d. isFinite v" by auto
    from processAudioFrame_step [OF ready assms this] show ?thesis by auto
  qed
qed

subsection \<open>Writing to one cell of the store\<close>

lemma deref_update_other: "p \<noteq> r \<Longrightarrow> deref (h[r := a]) p = deref h p"
  by (simp add: deref_def)

lemma samples_update_other: "p \<noteq> r \<Longrightarrow> samples (h[r := a]) p = samples h p"
  by (simp add: samples_def deref_update_other)

lemma int16_contents_update_other:
  "p \<noteq> r \<Longrightarrow> int16_contents (h[r := a]) p = int16_contents h p"
  by (simp add: int16_contents_def deref_update_other)

lemma buffered_update_other:
  "r \<notin> set (sampleBuffer st) \<Longrightarrow> buffered st (h[r := a]) = buffered st h"
proof -
  assume "r \<notin> set (sampleBuffer st)"
  have "map (samples (h[r := a])) (sampleBuffer st) = map (samples h) (sampleBuffer st)"
  proof (rule map_cong [OF refl])
    fix b assume "b \<in> set (sampleBuffer st)"
    with \<open>r \<notin> set (sampleBuffer st)\<close> have "b \<noteq> r" by auto
    then show "samples (h[r := a]) b = samples h b" by (rule samples_update_other)
  qed
  then show ?thesis unfolding buffered_def by (rule arg_cong)
qed

lemma calculateRMS_fresh_any:
  "calculateRMS (h @ [Float32Array data]) (length h)
     = calculateRMS (h' @ [Float32Array data]) (length h')"
  by (simp add: calculateRMS_fresh)

lemma deliver_frame_update:
  assumes "deref h p = Some (Float32Array chunk)" "r < length h" "r \<noteq> p"
  shows "deliver_frame st (h[r := a]) p =
           (case deliver_frame st h p of (h', evs) \<Rightarrow> (h'[r := a], evs))"
proof -
  have d: "deref (h[r := a]) p = Some (Float32Array chunk)"
    using assms by (simp add: deref_update_other)
  show ?thesis
    unfolding deliver_frame_eq [OF d] deliver_frame_eq [OF assms(1)]
    using assms(2) by (simp add: list_update_append1 split: option.splits)
qed

lemma processAudioFrame_update:
  assumes "well_formed st h" "r < length h" "r \<notin> set (sampleBuffer st)"
  shows "processAudioFrame st (h[r := a]) d =
           (case processAudioFrame st h d of (st', h', evs) \<Rightarrow> (st', h'[r := a], evs))"
proof (cases "analyserNode st = None \<or> audioContext st = None")
  case True
  then show ?thesis by (simp add: processAudioFrame_not_ready)
next
  case False
  then have ready: "analyserNode st \<noteq> None" "audioContext st \<noteq> None" by simp_all
  show ?thesis
  proof (cases "calculateRMS (h @ [Float32Array d]) (length h)")
    case (Inl e)
    then have 1: "processAudioFrame st h d = (st, h @ [Float32Array d], [])"
      using ready by (simp add: processAudioFrame_def new_array_def)
    from Inl have "calculateRMS (h[r := a] @ [Float32Array d]) (length (h[r := a])) = Inl e"
      using calculateRMS_fresh_any [of "h[r := a]" d h] by simp
    then have 2: "processAudioFrame st (h[r := a]) d = (st, h[r := a] @ [Float32Array d], [])"
      using ready by (simp add: processAudioFrame_def new_array_def)
    show ?thesis unfolding 1 2 using assms(2) by (simp add: list_update_append1)
  next
    case (Inr rms)
    let ?n = "samplesPerFrame st"
    let ?all = "buffered st h @ d"
    define bs where "bs = (if drop ?n ?all \<noteq> [] then [length h + 4] else [])"
    define five where "five = [Float32Array d, Float32Array d, Float32Array ?all,
                      Float32Array (take ?n ?all), Float32Array (drop ?n ?all)]"
    have wf': "well_formed st (h[r := a])" using assms(1) by (simp add: well_formed_def)
    have rms': "calculateRMS (h[r := a] @ [Float32Array d]) (length (h[r := a])) = Inr rms"
      using Inr calculateRMS_fresh_any [of "h[r := a]" d h] by simp
    have b: "buffered st (h[r := a]) = buffered st h"
      by (rule buffered_update_other [OF assms(3)])
    have dp: "deref (h @ five) (length h + 3) = Some (Float32Array (take ?n ?all))"
      using deref_at3 [of h] by (simp add: eval_nat_numeral five_def)
    have rl: "r < length (h @ five)" "r \<noteq> length h + 3" using assms(2) by simp_all
    have up: "h[r := a] @ five = (h @ five)[r := a]"
      using assms(2) by (simp add: list_update_append1)
    have up2: "h[r := a] @ [Float32Array d, Float32Array d] = (h @ [Float32Array d, Float32Array d])[r := a]"
      using assms(2) by (simp add: list_update_append1)
    note df = deliver_frame_update [OF dp rl, of "st\<lparr>sampleBuffer := bs\<rparr>" a]
    show ?thesis
      unfolding processAudioFrame_accepted_rms [OF ready assms(1) Inr]
        processAudioFrame_accepted_rms [OF ready wf' rms'] b
      unfolding bs_def [symmetric] five_def [symmetric] length_list_update up up2 df
      by (simp add: split_beta)
  qed
qed

lemma push_all_update:
  assumes "well_formed st h" "r < length h" "r \<notin> set (sampleBuffer st)"
  shows "push_all st (h[r := a]) ds =
           (case push_all st h ds of (st', h', evs) \<Rightarrow> (st', h'[r := a], evs))"
  using assms
proof (induction ds arbitrary: st h)
  case Nil
  then show ?case by simp
next
  case (Cons d ds)
  obtain st1 h1 ev1 where s: "processAudioFrame st h d = (st1, h1, ev1)"
    by (cases "processAudioFrame st h d") auto
  have inv: "well_formed st1 h1 \<and> r < length h1 \<and> r \<notin> set (sampleBuffer st1)"
  proof (cases "analyserNode st = None \<or> audioContext st = None")
    case True
    with s Cons.prems show ?thesis by (simp add: processAudioFrame_not_ready)
  next
    case False
    then have ready: "analyserNode st \<noteq> None" "audioContext st \<noteq> None" by simp_all
    show ?thesis
    proof (cases "d = [] \<or> (\<exists>v\<in>set d. \<not> isFinite v)")
      case True
      from processAudioFrame_ready_rejected [OF ready True, of h] s Cons.prems
      show ?thesis by (auto simp: well_formed_def)
    next
      case False
      then have acc: "d \<noteq> []" "\<forall>v\<in>set d. isFinite v" by auto
      from processAudioFrame_step [OF ready Cons.prems(1) acc] s obtain bs ext where
        "st1 = st\<lparr>sampleBuffer := bs\<rparr>" "h1 = h @ ext"
        "well_formed (st\<lparr>sampleBuffer := bs\<rparr>) (h @ ext)"
        "\<forall>b\<in>set bs. b \<in> set (sampleBuffer st) \<or> length h \<le> b"
        by auto
      with Cons.prems(2,3) show ?thesis by auto
    qed
  qed
  from Cons.IH [of st1 h1] inv
  have ih: "push_all st1 (h1[r := a]) ds =
           (case push_all st1 h1 ds of (st', h', evs) \<Rightarrow> (st', h'[r := a], evs))"
    by blast
  from processAudioFrame_update [OF Cons.prems, of a d] s
  have "processAudioFrame st (h[r := a]) d = (st1, h1[r := a], ev1)" by simp
  with s ih show ?case by (simp add: split_beta)
qed

lemma frame_refs_mem: "r \<in> set (frame_refs evs) \<longleftrightarrow> (\<exists>cb. PcmFrame cb r \<in> set evs)"
  by (induction evs rule: frame_refs.induct) auto

lemma encoded_Some: "x \<in> set (encoded st c) \<Longrightarrow> \<exists>zs. x = Some zs"
  by (auto simp: encoded_def split: option.splits)

lemma processAudioFrame_general:
  assumes "well_formed st h"
  shows "\<exists>bs ext evs.
           processAudioFrame st h d = (st\<lparr>sampleBuffer := bs\<rparr>, h @ ext, evs) \<and>
           well_formed (st\<lparr>sampleBuffer := bs\<rparr>) (h @ ext) \<and>
           (\<forall>b\<in>set bs. b \<in> set (sampleBuffer st) \<or> length h \<le> b) \<and>
           (\<forall>r\<in>set (frame_refs evs).
              length h < r \<and> r < length (h @ ext) \<and> r \<notin> set bs \<and>
              int16_contents (h @ ext) (r - 1) = int16_contents (h @ ext) r \<and>
              (\<exists>zs. int16_contents (h @ ext) r = Some zs))"
proof -
  have same: "st\<lparr>sampleBuffer := sampleBuffer st\<rparr> = st" by simp
  show ?thesis
  proof (cases "analyserNode st = None \<or> audioContext st = None")
    case True
    from processAudioFrame_not_ready [OF True, of h d] assms show ?thesis
      by (intro exI [of _ "sampleBuffer st"] exI [of _ "[]"] exI [of _ "[]"]) (simp add: same)
  next
    case False
    then have ready: "analyserNode st \<noteq> None" "audioContext st \<noteq> None" by simp_all
    show ?thesis
    proof (cases "d = [] \<or> (\<exists>v\<in>set d. \<not> isFinite v)")
      case True
      have "well_formed st (h @ [Float32Array d])" using assms by (auto simp: well_formed_def)
      with processAudioFrame_ready_rejected [OF ready True, of h] show ?thesis
        by (intro exI [of _ "sampleBuffer st"] exI [of _ "[Float32Array d]"] exI [of _ "[]"])
           (simp add: same)
    next
      case False
      then have acc: "d \<noteq> []" "\<forall>v\<in>set d. isFinite v" by auto
      from processAudioFrame_step [OF ready assms acc] obtain bs ext evs where
        s: "processAudioFrame st h d = (st\<lparr>sampleBuffer := bs\<rparr>, h @ ext, evs)"
           "well_formed (st\<lparr>sampleBuffer := bs\<rparr>) (h @ ext)"
           "\<forall>b\<in>set bs. b \<in> set (sampleBuffer st) \<or> length h \<le> b"
           "map (int16_contents (h @ ext)) (frame_refs evs) =
             (if samplesPerFrame st \<le> length (buffered st h @ d)
              then encoded st (take (samplesPerFrame st) (buffered st h @ d))
              else [])"
           "\<forall>r\<in>set (frame_refs evs).
              length h < r \<and> r < length (h @ ext) \<and> r \<notin> set bs \<and>
              int16_contents (h @ ext) (r - 1) = int16_contents (h @ ext) r"
        by blast
      have some: "\<exists>zs. int16_contents (h @ ext) r = Some zs" if "r \<in> set (frame_refs evs)" for r
      proof -
        from that have "int16_contents (h @ ext) r \<in> set (map (int16_contents (h @ ext)) (frame_refs evs))"
          by simp
        then have "int16_contents (h @ ext) r \<in> set (encoded st (take (samplesPerFrame st) (buffered st h @ d)))"
          unfolding s(4) by (simp split: if_splits)
        then show ?thesis by (rule encoded_Some)
      qed
      from s(1,2,3,5) some show ?thesis by blast
    qed
  qed
qed

lemma push_all_later_refs:
  assumes "well_formed st h"
  shows "\<forall>r\<in>set (frame_refs (snd (snd (push_all st h ds)))). length h < r"
  using assms
proof (induction ds arbitrary: st h)
  case Nil
  then show ?case by simp
next
  case (Cons d ds)
  from processAudioFrame_general [OF Cons.prems, of d] obtain bs ext evs where
    s: "processAudioFrame st h d = (st\<lparr>sampleBuffer := bs\<rparr>, h @ ext, evs)"
       "well_formed (st\<lparr>sampleBuffer := bs\<rparr>) (h @ ext)"
       "\<forall>r\<in>set (frame_refs evs). length h < r"
    by blast
  from Cons.IH [OF s(2)]
  have "\<forall>r\<in>set (frame_refs (snd (snd (push_all (st\<lparr>sampleBuffer := bs\<rparr>) (h @ ext) ds)))). length h < r"
    by auto
  with s(1,3) show ?case by (auto simp: split_beta)
qed

lemma slow_mic_trace':
  "processAudioFrame slow_mic [] [Fin (1 / 2), Fin (1 / 2), Fin (- 1 / 2), Fin (- 1 / 2)] =
     (slow_mic\<lparr>sampleBuffer := [4]\<rparr>, slow_mic_store, [Level 7 (1 / 2), PcmFrame 8 6])"
  unfolding slow_mic_store_def by (rule slow_mic_trace)

section \<open>The delivered frame\<close>

text \<open>
  Claim C10. The reference handed to the frame callback is new (it is not a reference of
  the store before the call), the capture object does not keep it, and the array behind it
  has the contents of the converted frame \<open>pcm16\<close>, which sits in the cell before it.
  Whatever the consumer writes to the delivered array, every later sequence of calls ends
  in the same state, hands out the same references and leaves the same store but for that
  one cell; so the frames delivered later have the same contents.
\<close>

theorem delivered_frame_is_fresh_copy:
  assumes "well_formed st h"
    and "processAudioFrame st h d = (st', h', evs)"
    and "PcmFrame cb r \<in> set evs"
  shows "length h \<le> r \<and> r < length h' \<and> r \<notin> set (sampleBuffer st') \<and>
         (\<exists>zs. int16_contents h' r = Some zs \<and> int16_contents h' (r - 1) = Some zs) \<and>
         (\<forall>a ds. push_all st' (h'[r := a]) ds =
                   (case push_all st' h' ds of (st2, h2, ev2) \<Rightarrow> (st2, h2[r := a], ev2))) \<and>
         (\<forall>a ds. \<forall>r2\<in>set (frame_refs (snd (snd (push_all st' h' ds)))).
            r2 \<noteq> r \<and>
            int16_contents ((fst (snd (push_all st' h' ds)))[r := a]) r2
              = int16_contents (fst (snd (push_all st' h' ds))) r2)"
proof -
  from assms(3) have mem: "r \<in> set (frame_refs evs)" by (auto simp: frame_refs_mem)
  from processAudioFrame_general [OF assms(1), of d] assms(2) obtain bs ext where
    s: "st' = st\<lparr>sampleBuffer := bs\<rparr>" "h' = h @ ext"
       "well_formed (st\<lparr>sampleBuffer := bs\<rparr>) (h @ ext)"
       "\<forall>r\<in>set (frame_refs evs).
              length h < r \<and> r < length (h @ ext) \<and> r \<notin> set bs \<and>
              int16_contents (h @ ext) (r - 1) = int16_contents (h @ ext) r \<and>
              (\<exists>zs. int16_contents (h @ ext) r = Some zs)"
    by auto
  from s(4) mem have r: "length h < r" "r < length h'" "r \<notin> set (sampleBuffer st')"
    "int16_contents h' (r - 1) = int16_contents h' r" "\<exists>zs. int16_contents h' r = Some zs"
    unfolding s(1,2) by auto
  have wf: "well_formed st' h'" using s(3) unfolding s(1,2) .
  have upd: "\<forall>a ds. push_all st' (h'[r := a]) ds =
                   (case push_all st' h' ds of (st2, h2, ev2) \<Rightarrow> (st2, h2[r := a], ev2))"
    using push_all_update [OF wf r(2,3)] by blast
  have later: "\<forall>a ds. \<forall>r2\<in>set (frame_refs (snd (snd (push_all st' h' ds)))).
            r2 \<noteq> r \<and>
            int16_contents ((fst (snd (push_all st' h' ds)))[r := a]) r2
              = int16_contents (fst (snd (push_all st' h' ds))) r2"
  proof (intro allI ballI)
    fix a ds r2 assume "r2 \<in> set (frame_refs (snd (snd (push_all st' h' ds))))"
    with push_all_later_refs [OF wf, of ds] have "length h' < r2" by blast
    with r(2) have ne: "r2 \<noteq> r" by simp
    from int16_contents_update_other [OF ne] ne
    show "r2 \<noteq> r \<and>
            int16_contents ((fst (snd (push_all st' h' ds)))[r := a]) r2
              = int16_contents (fst (snd (push_all st' h' ds))) r2" by simp
  qed
  from r upd later show ?thesis by auto
qed

theorem delivered_frame_is_fresh_copy_witness:
  "length ([] :: heap) \<le> 6 \<and> 6 < length slow_mic_store \<and>
   6 \<notin> set (sampleBuffer (slow_mic\<lparr>sampleBuffer := [4]\<rparr>)) \<and>
   (\<exists>zs. int16_contents slow_mic_store 6 = Some zs \<and>
         int16_contents slow_mic_store (6 - 1) = Some zs) \<and>
   (\<forall>a ds. push_all (slow_mic\<lparr>sampleBuffer := [4]\<rparr>) (slow_mic_store[6 := a]) ds =
      (case push_all (slow_mic\<lparr>sampleBuffer := [4]\<rparr>) slow_mic_store ds of
         (st2, h2, ev2) \<Rightarrow> (st2, h2[6 := a], ev2)))"
proof -
  have wf: "well_formed slow_mic []"
    by (simp add: well_formed_def slow_mic_def capturing_mic_def)
  have mem: "PcmFrame 8 6 \<in> set [Level 7 (1 / 2), PcmFrame 8 6]" by simp
  from delivered_frame_is_fresh_copy [OF wf slow_mic_trace' mem]
  show ?thesis by (elim conjE) (intro conjI; assumption)
qed

section \<open>The frame assembler\<close>

lemma map_singleton_concat: "concat (map (\<lambda>c. [f c]) cs) = map f cs"
  by (induction cs) simp_all

lemma encoded_chunks:
  assumes "onPcmFrameCallback st = Some cb" "sourceSampleRate st = Fin s" "targetSampleRate st = Fin t"
    and "\<forall>c\<in>set cs. \<exists>zs. frame_of (Fin s) (Fin t) c = Some zs"
  shows "concat (map (encoded st) cs) = map (frame_of (Fin s) (Fin t)) cs"
  using assms(4)
proof (induction cs)
  case Nil
  then show ?case by simp
next
  case (Cons c cs)
  then obtain zs where "frame_of (Fin s) (Fin t) c = Some zs" by auto
  with assms(1,2,3) have "encoded st c = [frame_of (Fin s) (Fin t) c]" by (simp add: encoded_def)
  with Cons show ?case by simp
qed

lemma capturing_mic_fields:
  "analyserNode capturing_mic = Some 4" "audioContext capturing_mic = Some 1"
  "sampleBuffer capturing_mic = []" "onPcmFrameCallback capturing_mic = Some 8"
  "sourceSampleRate capturing_mic = Fin 48000" "targetSampleRate capturing_mic = Fin 16000"
  "samplesPerFrame capturing_mic = 4800"
  by (simp_all add: capturing_mic_def frame_size_48000)

lemma convert_samples_zeros: "convert_samples (replicate n (Fin 0)) i = Inr (replicate n 0)"
  by (induction n arbitrary: i) (simp_all add: Let_def Math_round_def)

lemma quotient_frame:
  "fdiv (Fin 48000) (Fin 16000) = Fin 3" "fdiv (Fin (real 4800)) (Fin 3) = Fin 1600"
  "Math_round 1600 = 1600"
  by (simp_all add: round64_examples Math_round_def)

lemma frame_of_silence:
  "frame_of (Fin 48000) (Fin 16000) (replicate 4800 (Fin 0)) = Some (replicate 1600 0)"
proof -
  have q: "fdiv (Fin (real (length (replicate 4800 (Fin 0))))) (Fin 3) = Fin 1600"
    using quotient_frame(2) by simp
  have z: "\<forall>v\<in>set (replicate 4800 (Fin 0)). v = Fin 0" by simp
  have b: "downsample_body (replicate 4800 (Fin 0)) 48000 16000 = Inr (replicate 1600 (Fin 0))"
    unfolding downsample_body_reached [OF quotient_frame(1) _ q, simplified] quotient_frame(3)
      downsample_loop_zeros [OF z]
    by (simp add: max_array_length_def)
  have d: "downsampled (Fin 48000) (Fin 16000) (replicate 4800 (Fin 0)) = Some (replicate 1600 (Fin 0))"
    unfolding downsampled_def
      downsample_differing [OF deref_single, of "replicate 4800 (Fin 0)" 48000 16000, simplified] b
    by (simp add: samples_def deref_def)
  have "floatToInt16 [Float32Array (replicate 1600 (Fin 0))] 0
          = Inr (1, [Float32Array (replicate 1600 (Fin 0)), Int16Array (replicate 1600 0)])"
    using floatToInt16_Float32Array [OF deref_single, of "replicate 1600 (Fin 0)"]
    by (simp add: convert_samples_zeros)
  then have c: "converted (replicate 1600 (Fin 0)) = Some (replicate 1600 0)"
    by (simp add: converted_def int16_contents_def deref_def)
  show ?thesis unfolding frame_of_def d by (simp add: c)
qed

lemma chunks_of_silence:
  "chunks_of 4800 (concat [replicate 2048 (Fin 0), replicate 2048 (Fin 0), replicate 2048 (Fin 0)])
     = [replicate 4800 (Fin 0)]"
proof -
  have "concat [replicate 2048 (Fin 0), replicate 2048 (Fin 0), replicate 2048 (Fin 0)]
          = replicate 6144 (Fin 0)"
    by (simp add: replicate_add [symmetric])
  then show ?thesis by (simp add: chunks_of_def)
qed

text \<open>The frames of the microphone capture.\<close>

lemma mic_frames:
  assumes "analyserNode st \<noteq> None" and "audioContext st \<noteq> None" and "sampleBuffer st = []"
    and "onPcmFrameCallback st = Some cb"
    and "sourceSampleRate st = Fin s" and "targetSampleRate st = Fin t" and "0 < s" and "0 < t"
    and "0 < samplesPerFrame st" and "int (samplesPerFrame st) \<le> max_array_length"
    and "s = t \<or> (t < s \<and> fdiv (Fin s) (Fin t) = Fin ratio \<and>
                   fdiv (Fin (real (samplesPerFrame st))) (Fin ratio) = Fin q \<and> 1 \<le> Math_round q)"
    and "\<forall>b\<in>set blocks. b \<noteq> [] \<and> (\<forall>v\<in>set b. bounded_sample v) \<and> length b \<le> samplesPerFrame st"
  shows "\<exists>st' h' evs. push_all st h blocks = (st', h', evs) \<and>
            length (frame_refs evs) = length (concat blocks) div samplesPerFrame st \<and>
            map (int16_contents h') (frame_refs evs)
              = map (frame_of (Fin s) (Fin t)) (chunks_of (samplesPerFrame st) (concat blocks)) \<and>
            (\<forall>r\<in>set (frame_refs evs). \<exists>zs. int16_contents h' r = Some zs \<and>
               length zs = (if s = t then samplesPerFrame st else nat (Math_round q))) \<and>
            concat (chunks_of (samplesPerFrame st) (concat blocks)) @ buffered st' h' = concat blocks \<and>
            length (buffered st' h') = length (concat blocks) mod samplesPerFrame st"
proof -
  let ?n = "samplesPerFrame st"
  let ?all = "concat blocks"
  let ?len = "if s = t then ?n else nat (Math_round q)"
  have wf: "well_formed st h" using assms(3) by (simp add: well_formed_def)
  have b0: "buffered st h = []" using assms(3) by (simp add: buffered_def)
  have acc: "\<forall>b\<in>set blocks. b \<noteq> [] \<and> (\<forall>v\<in>set b. isFinite v)"
    using assms(12) bounded_sample_finite by blast
  have le: "\<forall>b\<in>set blocks. length b \<le> ?n" using assms(12) by blast
  from push_all_run [OF assms(1,2) wf acc] obtain bs ext evs where
    run: "push_all st h blocks = (st\<lparr>sampleBuffer := bs\<rparr>, h @ ext, evs)"
         "buffered (st\<lparr>sampleBuffer := bs\<rparr>) (h @ ext) = snd (assemble ?n (buffered st h) blocks)"
         "map (int16_contents (h @ ext)) (frame_refs evs)
             = concat (map (encoded st) (fst (assemble ?n (buffered st h) blocks)))"
    by blast
  have asm: "assemble ?n [] blocks = (chunks_of ?n ?all, drop (length ?all div ?n * ?n) ?all)"
    using assemble_chunks [OF assms(9) _ le, of "[]"] assms(9) by simp
  have bnd: "\<forall>v\<in>set ?all. bounded_sample v" using assms(12) by auto
  have enc: "\<exists>zs. frame_of (Fin s) (Fin t) c = Some zs \<and> length zs = ?len"
    if "c \<in> set (chunks_of ?n ?all)" for c
  proof -
    from chunks_of_member [OF that] have c: "length c = ?n" "set c \<subseteq> set ?all" by auto
    from c(1) assms(9) have ne: "c \<noteq> []" by auto
    from c(2) bnd have cf: "\<forall>v\<in>set c. bounded_sample v" by blast
    have cl: "int (length c) \<le> max_array_length" using assms(10) unfolding c(1) .
    have p5: "s = t \<or> (t < s \<and> fdiv (Fin s) (Fin t) = Fin ratio \<and>
                   fdiv (Fin (real (length c))) (Fin ratio) = Fin q \<and> 1 \<le> Math_round q)"
      using assms(11) unfolding c(1) .
    from frame_of_bounded [OF ne cf cl assms(7,8) p5] show ?thesis unfolding c(1) .
  qed
  have frames: "map (int16_contents (h @ ext)) (frame_refs evs)
                  = map (frame_of (Fin s) (Fin t)) (chunks_of ?n ?all)"
    unfolding run(3) b0 asm fst_conv
    by (rule encoded_chunks [OF assms(4,5,6)]) (use enc in blast)
  from arg_cong [OF frames, of length]
  have count: "length (frame_refs evs) = length ?all div ?n" by simp
  have each: "\<forall>r\<in>set (frame_refs evs). \<exists>zs. int16_contents (h @ ext) r = Some zs \<and> length zs = ?len"
  proof
    fix r assume "r \<in> set (frame_refs evs)"
    then have "int16_contents (h @ ext) r \<in> set (map (int16_contents (h @ ext)) (frame_refs evs))"
      by simp
    then obtain c where "c \<in> set (chunks_of ?n ?all)"
      "int16_contents (h @ ext) r = frame_of (Fin s) (Fin t) c"
      unfolding frames by auto
    with enc show "\<exists>zs. int16_contents (h @ ext) r = Some zs \<and> length zs = ?len" by auto
  qed
  have res: "buffered (st\<lparr>sampleBuffer := bs\<rparr>) (h @ ext) = drop (length ?all div ?n * ?n) ?all"
    unfolding run(2) b0 asm by simp
  have whole: "concat (chunks_of ?n ?all) @ buffered (st\<lparr>sampleBuffer := bs\<rparr>) (h @ ext) = ?all"
    unfolding res by (rule concat_chunks_of)
  have rlen: "length (buffered (st\<lparr>sampleBuffer := bs\<rparr>) (h @ ext)) = length ?all mod ?n"
    unfolding res by (rule length_residual)
  from run(1) count frames each whole rlen show ?thesis by blast
qed

text \<open>
  Claim C1, amended. Let the blocks pushed be non-empty, of finite samples of magnitude at
  most \<open>2^127\<close> and each no longer than \<open>samplesPerFrame\<close> (a poll delivers 2048 samples, a frame
  has 4800), into an empty buffer, with a frame callback and a target rate that is not
  above the source rate and leaves a frame at least one sample. If the blocks hold \<open>N * samplesPerFrame + R\<close> samples,
  \<open>R < samplesPerFrame\<close>, then exactly \<open>N\<close> frames are delivered; the k-th is the encoding of the
  k-th run of \<open>samplesPerFrame\<close> consecutive samples, so the samples are used in order, none
  dropped and none twice, and \<open>R\<close> samples stay buffered. The microphone downsamples a run
  before converting it, so its frames have \<open>Math.round(samplesPerFrame / ratio)\<close> samples,
  with \<open>ratio\<close> the double \<open>sourceRate / targetRate\<close> and the quotient a double; the frames of the
  hidden window have \<open>samplesPerFrame\<close> samples. One call delivers at most one frame.
\<close>

theorem frames_in_order:
  assumes "analyserNode st \<noteq> None" and "audioContext st \<noteq> None" and "sampleBuffer st = []"
    and "onPcmFrameCallback st = Some cb"
    and "sourceSampleRate st = Fin s" and "targetSampleRate st = Fin t" and "0 < s" and "0 < t"
    and "0 < samplesPerFrame st" and "int (samplesPerFrame st) \<le> max_array_length"
    and "s = t \<or> (t < s \<and> fdiv (Fin s) (Fin t) = Fin ratio \<and>
                   fdiv (Fin (real (samplesPerFrame st))) (Fin ratio) = Fin q \<and> 1 \<le> Math_round q)"
    and "\<forall>b\<in>set blocks. b \<noteq> [] \<and> (\<forall>v\<in>set b. bounded_sample v) \<and> length b \<le> samplesPerFrame st"
    and "window_isCapturing ren" and "renderer_sampleBuffer ren = []"
    and "\<forall>b\<in>set rblocks. length b \<le> renderer_samplesPerFrame"
  shows "(\<exists>st' h' evs. push_all st h blocks = (st', h', evs) \<and>
            length (frame_refs evs) = length (concat blocks) div samplesPerFrame st \<and>
            map (int16_contents h') (frame_refs evs)
              = map (frame_of (Fin s) (Fin t)) (chunks_of (samplesPerFrame st) (concat blocks)) \<and>
            (\<forall>r\<in>set (frame_refs evs). \<exists>zs. int16_contents h' r = Some zs \<and>
               length zs = (if s = t then samplesPerFrame st else nat (Math_round q))) \<and>
            concat (chunks_of (samplesPerFrame st) (concat blocks)) @ buffered st' h' = concat blocks \<and>
            length (buffered st' h') = length (concat blocks) mod samplesPerFrame st) \<and>
         (\<forall>d. length (frame_refs (snd (snd (processAudioFrame st h d)))) \<le> 1) \<and>
         (\<exists>ren' sent. processFrames ren rblocks = (ren', sent) \<and>
            sent = map (map to_pcm16) (chunks_of renderer_samplesPerFrame (concat rblocks)) \<and>
            length sent = length (concat rblocks) div renderer_samplesPerFrame \<and>
            (\<forall>f\<in>set sent. length f = renderer_samplesPerFrame) \<and>
            concat (chunks_of renderer_samplesPerFrame (concat rblocks))
              @ concat (renderer_sampleBuffer ren') = concat rblocks \<and>
            length (concat (renderer_sampleBuffer ren'))
              = length (concat rblocks) mod renderer_samplesPerFrame) \<and>
         (\<forall>d. length (snd (processFrame ren d)) \<le> 1)"
proof (intro conjI)
  have wf: "well_formed st h" using assms(3) by (simp add: well_formed_def)
  show "\<exists>st' h' evs. push_all st h blocks = (st', h', evs) \<and>
            length (frame_refs evs) = length (concat blocks) div samplesPerFrame st \<and>
            map (int16_contents h') (frame_refs evs)
              = map (frame_of (Fin s) (Fin t)) (chunks_of (samplesPerFrame st) (concat blocks)) \<and>
            (\<forall>r\<in>set (frame_refs evs). \<exists>zs. int16_contents h' r = Some zs \<and>
               length zs = (if s = t then samplesPerFrame st else nat (Math_round q))) \<and>
            concat (chunks_of (samplesPerFrame st) (concat blocks)) @ buffered st' h' = concat blocks \<and>
            length (buffered st' h') = length (concat blocks) mod samplesPerFrame st"
    by (rule mic_frames [OF assms(1-12)])
  show "\<forall>d. length (frame_refs (snd (snd (processAudioFrame st h d)))) \<le> 1"
    using processAudioFrame_at_most_one [OF wf] by blast
next
  let ?n = renderer_samplesPerFrame
  let ?all = "concat rblocks"
  have pos: "0 < ?n" by (simp add: renderer_samplesPerFrame_eq)
  from processFrames_run [OF assms(13), of rblocks] obtain bs where
    run: "processFrames ren rblocks =
           (ren\<lparr>renderer_sampleBuffer := bs\<rparr>,
            map (map to_pcm16) (fst (assemble ?n (concat (renderer_sampleBuffer ren)) rblocks)))"
         "concat bs = snd (assemble ?n (concat (renderer_sampleBuffer ren)) rblocks)"
    by blast
  have asm: "assemble ?n [] rblocks = (chunks_of ?n ?all, drop (length ?all div ?n * ?n) ?all)"
    using assemble_chunks [OF pos _ assms(15), of "[]"] pos by simp
  have 1: "processFrames ren rblocks =
             (ren\<lparr>renderer_sampleBuffer := bs\<rparr>, map (map to_pcm16) (chunks_of ?n ?all))"
    using run(1) unfolding assms(14) by (simp add: asm)
  have res: "concat bs = drop (length ?all div ?n * ?n) ?all"
    using run(2) unfolding assms(14) by (simp add: asm)
  have 2: "length (map (map to_pcm16) (chunks_of ?n ?all)) = length ?all div ?n" by simp
  have 3: "\<forall>f\<in>set (map (map to_pcm16) (chunks_of ?n ?all)). length f = ?n"
    using chunks_of_member [of _ ?n ?all] by auto
  have 4: "concat (chunks_of ?n ?all) @ concat (renderer_sampleBuffer (ren\<lparr>renderer_sampleBuffer := bs\<rparr>)) = ?all"
    using concat_chunks_of [of ?n ?all] by (simp add: res)
  have 5: "length (concat (renderer_sampleBuffer (ren\<lparr>renderer_sampleBuffer := bs\<rparr>))) = length ?all mod ?n"
    using length_residual [of ?all ?n] by (simp add: res)
  from 1 2 3 4 5
  show "\<exists>ren' sent. processFrames ren rblocks = (ren', sent) \<and>
            sent = map (map to_pcm16) (chunks_of ?n ?all) \<and>
            length sent = length ?all div ?n \<and>
            (\<forall>f\<in>set sent. length f = ?n) \<and>
            concat (chunks_of ?n ?all) @ concat (renderer_sampleBuffer ren') = ?all \<and>
            length (concat (renderer_sampleBuffer ren')) = length ?all mod ?n"
    by blast
  show "\<forall>d. length (snd (processFrame ren d)) \<le> 1"
  proof
    fix d
    from processFrame_step [OF assms(13), of d] show "length (snd (processFrame ren d)) \<le> 1"
      by auto
  qed
qed

theorem frames_in_order_witness:
  "(\<exists>st' h' evs.
      push_all capturing_mic []
        [replicate 2048 (Fin 0), replicate 2048 (Fin 0), replicate 2048 (Fin 0)] = (st', h', evs) \<and>
      length (frame_refs evs) = 1 \<and>
      map (int16_contents h') (frame_refs evs) = [Some (replicate 1600 0)] \<and>
      length (buffered st' h') = 1344) \<and>
   (\<exists>ren' sent. processFrames capturing_renderer [replicate 4800 (Fin 0), [Fin 0]] = (ren', sent) \<and>
      length sent = 1 \<and> length (concat (renderer_sampleBuffer ren')) = 1)"
proof -
  have b: "\<forall>b\<in>set [replicate 2048 (Fin 0), replicate 2048 (Fin 0), replicate 2048 (Fin 0)].
             b \<noteq> [] \<and> (\<forall>v\<in>set b. bounded_sample v) \<and> length b \<le> samplesPerFrame capturing_mic"
    by (simp add: capturing_mic_fields bounded_sample_def)
  have rb: "\<forall>b\<in>set [replicate 4800 (Fin 0), [Fin 0]]. length b \<le> renderer_samplesPerFrame"
    by (simp add: renderer_samplesPerFrame_eq)
  have r1: "window_isCapturing capturing_renderer" "renderer_sampleBuffer capturing_renderer = []"
    by (simp_all add: capturing_renderer_def)
  have m: "analyserNode capturing_mic \<noteq> None" "audioContext capturing_mic \<noteq> None"
    "(0::real) < 48000" "(0::real) < 16000" "0 < samplesPerFrame capturing_mic"
    "int (samplesPerFrame capturing_mic) \<le> max_array_length"
    "(48000::real) = 16000 \<or>
       ((16000::real) < 48000 \<and> fdiv (Fin 48000) (Fin 16000) = Fin 3 \<and>
        fdiv (Fin (real (samplesPerFrame capturing_mic))) (Fin 3) = Fin 1600 \<and>
        1 \<le> Math_round 1600)"
    using quotient_frame by (simp_all add: capturing_mic_fields max_array_length_def)
  note t = frames_in_order [OF m(1,2) capturing_mic_fields(3,4,5,6) m(3,4,5,6,7) b r1 rb, of "[]"]
  from t [THEN conjunct1] obtain st' h' evs where
    p: "push_all capturing_mic []
          [replicate 2048 (Fin 0), replicate 2048 (Fin 0), replicate 2048 (Fin 0)] = (st', h', evs)"
       "length (frame_refs evs)
          = length (concat [replicate 2048 (Fin 0), replicate 2048 (Fin 0), replicate 2048 (Fin 0)])
              div samplesPerFrame capturing_mic"
       "map (int16_contents h') (frame_refs evs)
          = map (frame_of (Fin 48000) (Fin 16000))
              (chunks_of (samplesPerFrame capturing_mic)
                 (concat [replicate 2048 (Fin 0), replicate 2048 (Fin 0), replicate 2048 (Fin 0)]))"
       "length (buffered st' h')
          = length (concat [replicate 2048 (Fin 0), replicate 2048 (Fin 0), replicate 2048 (Fin 0)])
              mod samplesPerFrame capturing_mic"
    by blast
  from p(3) have p3: "map (int16_contents h') (frame_refs evs) = [Some (replicate 1600 0)]"
    unfolding capturing_mic_fields chunks_of_silence by (simp add: frame_of_silence)
  have a: "\<exists>st' h' evs.
      push_all capturing_mic []
        [replicate 2048 (Fin 0), replicate 2048 (Fin 0), replicate 2048 (Fin 0)] = (st', h', evs) \<and>
      length (frame_refs evs) = 1 \<and>
      map (int16_contents h') (frame_refs evs) = [Some (replicate 1600 0)] \<and>
      length (buffered st' h') = 1344"
    using p(1,2,4) p3 by (simp add: capturing_mic_fields)
  from t [THEN conjunct2, THEN conjunct2, THEN conjunct1] obtain ren' sent where
    q: "processFrames capturing_renderer [replicate 4800 (Fin 0), [Fin 0]] = (ren', sent)"
       "length sent = length (concat [replicate 4800 (Fin 0), [Fin 0]]) div renderer_samplesPerFrame"
       "length (concat (renderer_sampleBuffer ren'))
          = length (concat [replicate 4800 (Fin 0), [Fin 0]]) mod renderer_samplesPerFrame"
    by blast
  have c: "\<exists>ren' sent. processFrames capturing_renderer [replicate 4800 (Fin 0), [Fin 0]] = (ren', sent) \<and>
      length sent = 1 \<and> length (concat (renderer_sampleBuffer ren')) = 1"
    using q by (simp add: renderer_samplesPerFrame_eq)
  from a c show ?thesis by blast
qed

text \<open>
  The capture as \<open>start\<close> leaves it: 48000 Hz, 4800 samples per frame, a target of 16000 Hz,
  and polls of 2048 samples. Three polls hold one frame and 1344 samples more. One frame is
  delivered, and it has 1600 samples, a third of \<open>samplesPerFrame\<close>.
\<close>

theorem frames_in_order_counterexample:
  "samplesPerFrame capturing_mic = 4800 \<and>
   (\<exists>st' h' evs r zs.
      push_all capturing_mic []
        [replicate 2048 (Fin 0), replicate 2048 (Fin 0), replicate 2048 (Fin 0)] = (st', h', evs) \<and>
      frame_refs evs = [r] \<and> int16_contents h' r = Some zs \<and>
      length zs = 1600 \<and> length zs \<noteq> samplesPerFrame capturing_mic)"
proof -
  have b: "\<forall>b\<in>set [replicate 2048 (Fin 0), replicate 2048 (Fin 0), replicate 2048 (Fin 0)].
             b \<noteq> [] \<and> (\<forall>v\<in>set b. bounded_sample v) \<and> length b \<le> samplesPerFrame capturing_mic"
    by (simp add: capturing_mic_fields bounded_sample_def)
  have m: "analyserNode capturing_mic \<noteq> None" "audioContext capturing_mic \<noteq> None"
    "(0::real) < 48000" "(0::real) < 16000" "0 < samplesPerFrame capturing_mic"
    "int (samplesPerFrame capturing_mic) \<le> max_array_length"
    "(48000::real) = 16000 \<or>
       ((16000::real) < 48000 \<and> fdiv (Fin 48000) (Fin 16000) = Fin 3 \<and>
        fdiv (Fin (real (samplesPerFrame capturing_mic))) (Fin 3) = Fin 1600 \<and>
        1 \<le> Math_round 1600)"
    using quotient_frame by (simp_all add: capturing_mic_fields max_array_length_def)
  from mic_frames [OF m(1,2) capturing_mic_fields(3,4,5,6) m(3,4,5,6,7) b, of "[]"]
  obtain st' h' evs where
    p: "push_all capturing_mic []
          [replicate 2048 (Fin 0), replicate 2048 (Fin 0), replicate 2048 (Fin 0)] = (st', h', evs)"
       "length (frame_refs evs)
          = length (concat [replicate 2048 (Fin 0), replicate 2048 (Fin 0), replicate 2048 (Fin 0)])
              div samplesPerFrame capturing_mic"
       "map (int16_contents h') (frame_refs evs)
          = map (frame_of (Fin 48000) (Fin 16000))
              (chunks_of (samplesPerFrame capturing_mic)
                 (concat [replicate 2048 (Fin 0), replicate 2048 (Fin 0), replicate 2048 (Fin 0)]))"
    by blast
  from p(2) have "length (frame_refs evs) = 1" by (simp add: capturing_mic_fields)
  then obtain r where r: "frame_refs evs = [r]" by (cases "frame_refs evs") auto
  from p(3) have "int16_contents h' r = Some (replicate 1600 0)"
    unfolding capturing_mic_fields chunks_of_silence r by (simp add: frame_of_silence)
  with p(1) r show ?thesis by (auto simp: capturing_mic_fields)
qed

section \<open>The sample buffer\<close>

lemma downsampled_example:
  "downsampled (Fin 48000) (Fin 16000) [Fin (1 / 4), Fin (1 / 2), Fin (3 / 4)] = Some [Fin (1 / 2)]"
proof -
  have ratio: "fdiv (Fin 48000) (Fin 16000) = Fin 3" by (simp add: round64_examples)
  have q: "fdiv (Fin (real (length [Fin (1 / 4), Fin (1 / 2), Fin (3 / 4)]))) (Fin 3) = Fin 1"
    by simp
  show ?thesis
    by (simp add: downsampled_def downsample_differing [OF deref_single]
          downsample_body_reached [OF ratio _ q] Math_round_def max_array_length_def
          downsample_loop.simps accumulate.simps round64_examples round32_examples
          samples_def deref_def)
qed

text \<open>
  Claim C2, amended. After a call that pushes a block, the buffer holds the samples buffered
  before, followed by the block as it came, less the first \<open>samplesPerFrame\<close> of them if
  there were that many: source-rate samples, not resampled (a frame is resampled after
  it has been cut off). A rejected block leaves the buffer as it was. If fewer than
  \<open>samplesPerFrame\<close> samples were buffered and the block is no longer than \<open>samplesPerFrame\<close>,
  fewer than \<open>samplesPerFrame\<close> samples are buffered afterwards. The same holds for the
  script of the hidden window, which pushes every block.
\<close>

theorem buffer_holds_raw_leftover:
  assumes "analyserNode st \<noteq> None" and "audioContext st \<noteq> None" and "well_formed st h"
    and "d \<noteq> []" and "\<forall>v\<in>set d. isFinite v"
    and "window_isCapturing ren"
  shows "(\<exists>bs ext evs.
            processAudioFrame st h d = (st\<lparr>sampleBuffer := bs\<rparr>, h @ ext, evs) \<and>
            well_formed (st\<lparr>sampleBuffer := bs\<rparr>) (h @ ext) \<and>
            buffered (st\<lparr>sampleBuffer := bs\<rparr>) (h @ ext) =
              (if samplesPerFrame st \<le> length (buffered st h @ d)
               then drop (samplesPerFrame st) (buffered st h @ d)
               else buffered st h @ d) \<and>
            (length (buffered st h) < samplesPerFrame st \<and> length d \<le> samplesPerFrame st \<longrightarrow>
               length (buffered (st\<lparr>sampleBuffer := bs\<rparr>) (h @ ext)) < samplesPerFrame st)) \<and>
         (\<forall>x. x = [] \<or> (\<exists>v\<in>set x. \<not> isFinite v) \<longrightarrow>
            processAudioFrame st h x = (st, h @ [Float32Array x], []) \<and>
            buffered st (h @ [Float32Array x]) = buffered st h) \<and>
         (\<exists>bs sent.
            processFrame ren rd = (ren\<lparr>renderer_sampleBuffer := bs\<rparr>, sent) \<and>
            concat bs =
              (if renderer_samplesPerFrame \<le> length (concat (renderer_sampleBuffer ren) @ rd)
               then drop renderer_samplesPerFrame (concat (renderer_sampleBuffer ren) @ rd)
               else concat (renderer_sampleBuffer ren) @ rd) \<and>
            (length (concat (renderer_sampleBuffer ren)) < renderer_samplesPerFrame \<and>
             length rd \<le> renderer_samplesPerFrame \<longrightarrow>
               length (concat bs) < renderer_samplesPerFrame))"
proof (intro conjI allI impI)
  let ?n = "samplesPerFrame st"
  let ?all = "buffered st h @ d"
  from processAudioFrame_step [OF assms(1,2,3,4,5)] obtain bs ext evs where
    s: "processAudioFrame st h d = (st\<lparr>sampleBuffer := bs\<rparr>, h @ ext, evs)"
       "well_formed (st\<lparr>sampleBuffer := bs\<rparr>) (h @ ext)"
       "buffered (st\<lparr>sampleBuffer := bs\<rparr>) (h @ ext) =
             (if ?n \<le> length ?all then drop ?n ?all else ?all)"
    by blast
  have "length (buffered st h) < ?n \<and> length d \<le> ?n \<longrightarrow>
               length (buffered (st\<lparr>sampleBuffer := bs\<rparr>) (h @ ext)) < ?n"
    unfolding s(3) by auto
  with s show "\<exists>bs ext evs.
            processAudioFrame st h d = (st\<lparr>sampleBuffer := bs\<rparr>, h @ ext, evs) \<and>
            well_formed (st\<lparr>sampleBuffer := bs\<rparr>) (h @ ext) \<and>
            buffered (st\<lparr>sampleBuffer := bs\<rparr>) (h @ ext) =
              (if ?n \<le> length ?all then drop ?n ?all else ?all) \<and>
            (length (buffered st h) < ?n \<and> length d \<le> ?n \<longrightarrow>
               length (buffered (st\<lparr>sampleBuffer := bs\<rparr>) (h @ ext)) < ?n)"
    by blast
next
  fix x assume "x = [] \<or> (\<exists>v\<in>set x. \<not> isFinite v)"
  from processAudioFrame_ready_rejected [OF assms(1,2) this]
  show "processAudioFrame st h x = (st, h @ [Float32Array x], [])" .
next
  fix x
  have "map (samples (h @ [Float32Array x])) (sampleBuffer st) = map (samples h) (sampleBuffer st)"
    using assms(3) by (intro map_samples_append_old) (simp add: well_formed_def)
  then show "buffered st (h @ [Float32Array x]) = buffered st h"
    unfolding buffered_def by (rule arg_cong)
next
  let ?n = renderer_samplesPerFrame
  let ?all = "concat (renderer_sampleBuffer ren) @ rd"
  from processFrame_step [OF assms(6), of rd] obtain bs where
    s: "processFrame ren rd =
           (ren\<lparr>renderer_sampleBuffer := bs\<rparr>,
            (if ?n \<le> length ?all then [map to_pcm16 (take ?n ?all)] else []))"
       "concat bs = (if ?n \<le> length ?all then drop ?n ?all else ?all)"
    by blast
  have "length (concat (renderer_sampleBuffer ren)) < ?n \<and> length rd \<le> ?n \<longrightarrow>
               length (concat bs) < ?n"
    unfolding s(2) by auto
  with s show "\<exists>bs sent.
            processFrame ren rd = (ren\<lparr>renderer_sampleBuffer := bs\<rparr>, sent) \<and>
            concat bs = (if ?n \<le> length ?all then drop ?n ?all else ?all) \<and>
            (length (concat (renderer_sampleBuffer ren)) < ?n \<and> length rd \<le> ?n \<longrightarrow>
               length (concat bs) < ?n)"
    by blast
qed

theorem buffer_holds_raw_leftover_witness:
  "(\<exists>bs ext evs.
      processAudioFrame capturing_mic [] [Fin (1 / 4), Fin (1 / 2), Fin (3 / 4)]
        = (capturing_mic\<lparr>sampleBuffer := bs\<rparr>, [] @ ext, evs) \<and>
      buffered (capturing_mic\<lparr>sampleBuffer := bs\<rparr>) ([] @ ext)
        = [Fin (1 / 4), Fin (1 / 2), Fin (3 / 4)] \<and>
      length (buffered (capturing_mic\<lparr>sampleBuffer := bs\<rparr>) ([] @ ext)) < 4800) \<and>
   processAudioFrame capturing_mic [] [NaN] = (capturing_mic, [] @ [Float32Array [NaN]], []) \<and>
   (\<exists>bs sent.
      processFrame capturing_renderer [Fin 0, NaN] = (capturing_renderer\<lparr>renderer_sampleBuffer := bs\<rparr>, sent) \<and>
      concat bs = [Fin 0, NaN] \<and> length (concat bs) < 4800)"
proof -
  have m: "analyserNode capturing_mic \<noteq> None" "audioContext capturing_mic \<noteq> None"
    "well_formed capturing_mic []"
    "[Fin (1 / 4), Fin (1 / 2), Fin (3 / 4)] \<noteq> []"
    "\<forall>v\<in>set [Fin (1 / 4), Fin (1 / 2), Fin (3 / 4)]. isFinite v"
    "window_isCapturing capturing_renderer"
    by (simp_all add: capturing_mic_fields well_formed_def capturing_renderer_def)
  note t = buffer_holds_raw_leftover [OF m, of "[Fin 0, NaN]"]
  have b0: "buffered capturing_mic [] = []" by (simp add: buffered_def capturing_mic_fields)
  from t [THEN conjunct1] obtain bs ext evs where
    p: "processAudioFrame capturing_mic [] [Fin (1 / 4), Fin (1 / 2), Fin (3 / 4)]
        = (capturing_mic\<lparr>sampleBuffer := bs\<rparr>, [] @ ext, evs)"
       "buffered (capturing_mic\<lparr>sampleBuffer := bs\<rparr>) ([] @ ext) =
              (if samplesPerFrame capturing_mic
                    \<le> length (buffered capturing_mic [] @ [Fin (1 / 4), Fin (1 / 2), Fin (3 / 4)])
               then drop (samplesPerFrame capturing_mic)
                      (buffered capturing_mic [] @ [Fin (1 / 4), Fin (1 / 2), Fin (3 / 4)])
               else buffered capturing_mic [] @ [Fin (1 / 4), Fin (1 / 2), Fin (3 / 4)])"
    by blast
  from p(2) have p2: "buffered (capturing_mic\<lparr>sampleBuffer := bs\<rparr>) ([] @ ext)
        = [Fin (1 / 4), Fin (1 / 2), Fin (3 / 4)]"
    by (simp add: b0 capturing_mic_fields)
  then have p3: "length (buffered (capturing_mic\<lparr>sampleBuffer := bs\<rparr>) ([] @ ext)) < 4800" by simp
  from p(1) p2 p3 have a: "\<exists>bs ext evs.
      processAudioFrame capturing_mic [] [Fin (1 / 4), Fin (1 / 2), Fin (3 / 4)]
        = (capturing_mic\<lparr>sampleBuffer := bs\<rparr>, [] @ ext, evs) \<and>
      buffered (capturing_mic\<lparr>sampleBuffer := bs\<rparr>) ([] @ ext)
        = [Fin (1 / 4), Fin (1 / 2), Fin (3 / 4)] \<and>
      length (buffered (capturing_mic\<lparr>sampleBuffer := bs\<rparr>) ([] @ ext)) < 4800"
    by blast
  from t [THEN conjunct2, THEN conjunct1, rule_format, of "[NaN]"]
  have b: "processAudioFrame capturing_mic [] [NaN] = (capturing_mic, [] @ [Float32Array [NaN]], [])"
    by simp
  have r0: "concat (renderer_sampleBuffer capturing_renderer) = []"
    by (simp add: capturing_renderer_def)
  from t [THEN conjunct2, THEN conjunct2] obtain rbs sent where
    q: "processFrame capturing_renderer [Fin 0, NaN]
          = (capturing_renderer\<lparr>renderer_sampleBuffer := rbs\<rparr>, sent)"
       "concat rbs =
              (if renderer_samplesPerFrame
                    \<le> length (concat (renderer_sampleBuffer capturing_renderer) @ [Fin 0, NaN])
               then drop renderer_samplesPerFrame
                      (concat (renderer_sampleBuffer capturing_renderer) @ [Fin 0, NaN])
               else concat (renderer_sampleBuffer capturing_renderer) @ [Fin 0, NaN])"
    by blast
  from q(2) have q2: "concat rbs = [Fin 0, NaN]"
    by (simp add: r0 renderer_samplesPerFrame_eq)
  then have "length (concat rbs) < 4800" by simp
  with q(1) q2 have c: "\<exists>bs sent.
      processFrame capturing_renderer [Fin 0, NaN] = (capturing_renderer\<lparr>renderer_sampleBuffer := bs\<rparr>, sent) \<and>
      concat bs = [Fin 0, NaN] \<and> length (concat bs) < 4800"
    by blast
  from a b c show ?thesis by blast
qed

text \<open>
  At 48 kHz with a 16 kHz target, three samples pushed are three samples buffered, while
  the resampled block has one; and a block of two frames' worth leaves a whole frame's
  worth behind.
\<close>

theorem buffer_holds_raw_leftover_counterexample:
  "(\<exists>st' h' evs.
      processAudioFrame capturing_mic [] [Fin (1 / 4), Fin (1 / 2), Fin (3 / 4)] = (st', h', evs) \<and>
      buffered st' h' = [Fin (1 / 4), Fin (1 / 2), Fin (3 / 4)]) \<and>
   downsampled (Fin 48000) (Fin 16000) [Fin (1 / 4), Fin (1 / 2), Fin (3 / 4)] = Some [Fin (1 / 2)] \<and>
   (\<exists>st' h' evs.
      processAudioFrame capturing_mic [] (replicate 9600 (Fin 0)) = (st', h', evs) \<and>
      length (buffered st' h') = 4800 \<and> samplesPerFrame st' = 4800)"
proof -
  have m: "analyserNode capturing_mic \<noteq> None" "audioContext capturing_mic \<noteq> None"
    "well_formed capturing_mic []"
    by (simp_all add: capturing_mic_fields well_formed_def)
  have b0: "buffered capturing_mic [] = []" by (simp add: buffered_def capturing_mic_fields)
  have d1: "[Fin (1 / 4), Fin (1 / 2), Fin (3 / 4)] \<noteq> []"
    "\<forall>v\<in>set [Fin (1 / 4), Fin (1 / 2), Fin (3 / 4)]. isFinite v" by simp_all
  from processAudioFrame_step [OF m d1] obtain bs ext evs where
    p: "processAudioFrame capturing_mic [] [Fin (1 / 4), Fin (1 / 2), Fin (3 / 4)]
        = (capturing_mic\<lparr>sampleBuffer := bs\<rparr>, [] @ ext, evs)"
       "buffered (capturing_mic\<lparr>sampleBuffer := bs\<rparr>) ([] @ ext) =
              (if samplesPerFrame capturing_mic
                    \<le> length (buffered capturing_mic [] @ [Fin (1 / 4), Fin (1 / 2), Fin (3 / 4)])
               then drop (samplesPerFrame capturing_mic)
                      (buffered capturing_mic [] @ [Fin (1 / 4), Fin (1 / 2), Fin (3 / 4)])
               else buffered capturing_mic [] @ [Fin (1 / 4), Fin (1 / 2), Fin (3 / 4)])"
    by blast
  from p(2) have "buffered (capturing_mic\<lparr>sampleBuffer := bs\<rparr>) ([] @ ext)
        = [Fin (1 / 4), Fin (1 / 2), Fin (3 / 4)]"
    by (simp add: b0 capturing_mic_fields)
  with p(1) have a: "\<exists>st' h' evs.
      processAudioFrame capturing_mic [] [Fin (1 / 4), Fin (1 / 2), Fin (3 / 4)] = (st', h', evs) \<and>
      buffered st' h' = [Fin (1 / 4), Fin (1 / 2), Fin (3 / 4)]"
    by blast
  have d2: "replicate 9600 (Fin 0) \<noteq> []" "\<forall>v\<in>set (replicate 9600 (Fin 0)). isFinite v"
    by simp_all
  from processAudioFrame_step [OF m d2] obtain bs2 ext2 evs2 where
    q: "processAudioFrame capturing_mic [] (replicate 9600 (Fin 0))
        = (capturing_mic\<lparr>sampleBuffer := bs2\<rparr>, [] @ ext2, evs2)"
       "buffered (capturing_mic\<lparr>sampleBuffer := bs2\<rparr>) ([] @ ext2) =
              (if samplesPerFrame capturing_mic
                    \<le> length (buffered capturing_mic [] @ replicate 9600 (Fin 0))
               then drop (samplesPerFrame capturing_mic)
                      (buffered capturing_mic [] @ replicate 9600 (Fin 0))
               else buffered capturing_mic [] @ replicate 9600 (Fin 0))"
    by blast
  from q(2) have "length (buffered (capturing_mic\<lparr>sampleBuffer := bs2\<rparr>) ([] @ ext2)) = 4800"
    by (simp add: b0 capturing_mic_fields)
  with q(1) have c: "\<exists>st' h' evs.
      processAudioFrame capturing_mic [] (replicate 9600 (Fin 0)) = (st', h', evs) \<and>
      length (buffered st' h') = 4800 \<and> samplesPerFrame st' = 4800"
    by (auto simp: capturing_mic_fields)
  from a downsampled_example c show ?thesis by blast
qed

end
